theory Spec2Isabelle
  imports Main "HOL-Library.FSet" "HOL-Library.Product_Lexorder"
begin

section \<open>Data model\<close>

text \<open>
  A cell is the Python tuple \<open>(i, j)\<close> of two unbounded integers. A Python \<open>set\<close> of
  cells is a finite set, compared by its elements: \<open>cell fset\<close>.
\<close>

type_synonym cell = "int \<times> int"

text \<open>
  \<open>class Sentence\<close>: the fields \<open>cells\<close> and \<open>count\<close>. \<open>__eq__\<close> compares both fields,
  which is equality of records; \<open>!=\<close> and \<open>in\<close> on lists follow it.
\<close>

record sentence =
  cells :: "cell fset"
  count :: int

text \<open>\<open>class MinesweeperAI\<close>: the fields set by \<open>__init__\<close>.\<close>

record ai =
  height :: int
  width :: int
  moves_made :: "cell fset"
  mines :: "cell fset"
  safes :: "cell fset"
  knowledge :: "sentence list"

text \<open>The exceptions the list operations of \<open>add_knowledge\<close> can raise.\<close>

datatype error = IndexError | ValueError

definition init_ai :: "int \<Rightarrow> int \<Rightarrow> ai" where
  "init_ai h w =
     \<lparr>height = h, width = w, moves_made = {||}, mines = {||}, safes = {||}, knowledge = []\<rparr>"

section \<open>Sentence\<close>

text \<open>
  \<open>known_mines\<close> and \<open>known_safes\<close> fall off the end of the function when their test
  fails, which returns Python's \<open>None\<close>: the model returns \<open>None\<close>.
\<close>

definition known_mines :: "sentence \<Rightarrow> cell fset option" where
  "known_mines s = (if int (fcard (cells s)) = count s then Some (cells s) else None)"

definition known_safes :: "sentence \<Rightarrow> cell fset option" where
  "known_safes s = (if count s = 0 then Some (cells s) else None)"

definition sentence_mark_mine :: "cell \<Rightarrow> sentence \<Rightarrow> sentence" where
  "sentence_mark_mine c s =
     (if c |\<in>| cells s then s\<lparr>cells := cells s |-| {|c|}, count := count s - 1\<rparr> else s)"

definition sentence_mark_safe :: "cell \<Rightarrow> sentence \<Rightarrow> sentence" where
  "sentence_mark_safe c s =
     (if c |\<in>| cells s then s\<lparr>cells := cells s |-| {|c|}\<rparr> else s)"

section \<open>MinesweeperAI: marking\<close>

text \<open>
  \<open>MinesweeperAI.mark_mine\<close> adds the cell to \<open>self.mines\<close> when it is not there and then
  calls \<open>Sentence.mark_mine\<close> on every element of \<open>self.knowledge\<close>, in place: the list
  keeps its length and order.
\<close>

definition ai_mark_mine :: "cell \<Rightarrow> ai \<Rightarrow> ai" where
  "ai_mark_mine c st =
     (let st1 = (if c |\<notin>| mines st then st\<lparr>mines := finsert c (mines st)\<rparr> else st)
      in st1\<lparr>knowledge := map (sentence_mark_mine c) (knowledge st1)\<rparr>)"

definition ai_mark_safe :: "cell \<Rightarrow> ai \<Rightarrow> ai" where
  "ai_mark_safe c st =
     (let st1 = (if c |\<notin>| safes st then st\<lparr>safes := finsert c (safes st)\<rparr> else st)
      in st1\<lparr>knowledge := map (sentence_mark_safe c) (knowledge st1)\<rparr>)"

text \<open>
  \<open>for c in tuple(mines): self.mark_mine(c)\<close> runs over a snapshot of the set. The
  order of a Python set is not specified; the model takes the cells in ascending order,
  and \<open>mark_mines_any_order\<close> below shows that no order gives another result.
\<close>

definition mark_mines :: "cell fset \<Rightarrow> ai \<Rightarrow> ai" where
  "mark_mines cs st = fold ai_mark_mine (sorted_list_of_fset cs) st"

definition mark_safes :: "cell fset \<Rightarrow> ai \<Rightarrow> ai" where
  "mark_safes cs st = fold ai_mark_safe (sorted_list_of_fset cs) st"

section \<open>MinesweeperAI.add_knowledge\<close>

subsection \<open>generate\_new\_knowledge\<close>

text \<open>
  The nested function \<open>generate_new_knowledge\<close>: both loops run over a snapshot of
  \<open>self.knowledge\<close>, which the function does not change; \<open>new_sentences\<close> grows at its
  end. \<open>derive s1 s2\<close> is \<open>Sentence(s1.cells.difference(s2.cells), s1.count - s2.count)\<close>.
\<close>

definition derive :: "sentence \<Rightarrow> sentence \<Rightarrow> sentence" where
  "derive s1 s2 = \<lparr>cells = cells s1 |-| cells s2, count = count s1 - count s2\<rparr>"

definition add_candidate :: "sentence list \<Rightarrow> sentence \<Rightarrow> sentence list \<Rightarrow> sentence list" where
  "add_candidate kn temp new_sentences =
     (if temp \<notin> set new_sentences \<and> temp \<notin> set kn \<and> cells temp \<noteq> {||}
      then new_sentences @ [temp] else new_sentences)"

definition generate_pair ::
  "sentence list \<Rightarrow> sentence \<Rightarrow> sentence \<Rightarrow> sentence list \<Rightarrow> sentence list" where
  "generate_pair kn s1 s2 new_sentences =
     (if s1 \<noteq> s2 \<and> count s1 \<noteq> 0 \<and> count s2 \<noteq> 0 then
        (let ns1 = (if cells s2 |\<subseteq>| cells s1
                    then add_candidate kn (derive s1 s2) new_sentences else new_sentences)
         in if cells s1 |\<subseteq>| cells s2 then add_candidate kn (derive s2 s1) ns1 else ns1)
      else new_sentences)"

definition generate_new_knowledge :: "sentence list \<Rightarrow> sentence list \<Rightarrow> sentence list" where
  "generate_new_knowledge kn new_sentences =
     fold (\<lambda>s1 ns. fold (\<lambda>s2 ns'. generate_pair kn s1 s2 ns') kn ns) kn new_sentences"

subsection \<open>The sentence of an observation\<close>

text \<open>
  The double loop over \<open>range(-1, 2)\<close> that builds \<open>temp_set\<close> and \<open>count_adjuster\<close>.
  It visits the offset \<open>(0, 0)\<close>, the observed cell itself, like every other offset.
\<close>

definition offsets :: "(int \<times> int) list" where
  "offsets = concat (map (\<lambda>i. map (\<lambda>j. (i, j)) [-1, 0, 1]) [-1, 0, 1])"

definition seed_step :: "ai \<Rightarrow> cell \<Rightarrow> int \<times> int \<Rightarrow> cell fset \<times> int \<Rightarrow> cell fset \<times> int" where
  "seed_step st cell ij acc =
     (let new_cell = (fst cell + fst ij, snd cell + snd ij) in
      if (fst new_cell \<le> height st - 1 \<and> fst new_cell \<ge> 0) \<and>
         (snd new_cell \<le> width st - 1 \<and> snd new_cell \<ge> 0)
      then (if new_cell |\<notin>| safes st
            then (if new_cell |\<notin>| mines st
                  then (finsert new_cell (fst acc), snd acc)
                  else (fst acc, snd acc + 1))
            else acc)
      else acc)"

definition seed_sentence :: "ai \<Rightarrow> cell \<Rightarrow> int \<Rightarrow> sentence" where
  "seed_sentence st cell cnt =
     (let acc = fold (seed_step st cell) offsets ({||}, 0)
      in \<lparr>cells = fst acc, count = cnt - snd acc\<rparr>)"

subsection \<open>The marking pass\<close>

text \<open>
  \<open>for s in self.knowledge\<close> walks the live list by index; the marks change the
  sentences in place and never the length of the list. \<open>s.known_safes()\<close> is called
  after the mines of \<open>s\<close> were marked, so it reads the sentence as it is then. A set is
  true in a Python \<open>if\<close> when it is not empty; \<open>None\<close> is false.
\<close>

definition mark_known_mines :: "nat \<Rightarrow> ai \<Rightarrow> ai" where
  "mark_known_mines i st =
     (case known_mines (knowledge st ! i) of
        Some ms \<Rightarrow> if ms \<noteq> {||} then mark_mines ms st else st
      | None \<Rightarrow> st)"

definition mark_known_safes :: "nat \<Rightarrow> ai \<Rightarrow> ai" where
  "mark_known_safes i st =
     (case known_safes (knowledge st ! i) of
        Some ss \<Rightarrow> if ss \<noteq> {||} then mark_safes ss st else st
      | None \<Rightarrow> st)"

definition mark_at :: "nat \<Rightarrow> ai \<Rightarrow> ai" where
  "mark_at i st = mark_known_safes i (mark_known_mines i st)"

lemma length_knowledge_ai_mark_mine [simp]:
  "length (knowledge (ai_mark_mine c st)) = length (knowledge st)"
  by (simp add: ai_mark_mine_def Let_def)

lemma length_knowledge_ai_mark_safe [simp]:
  "length (knowledge (ai_mark_safe c st)) = length (knowledge st)"
  by (simp add: ai_mark_safe_def Let_def)

lemma length_knowledge_fold_mark_mine [simp]:
  "length (knowledge (fold ai_mark_mine cs st)) = length (knowledge st)"
  by (induction cs arbitrary: st) simp_all

lemma length_knowledge_fold_mark_safe [simp]:
  "length (knowledge (fold ai_mark_safe cs st)) = length (knowledge st)"
  by (induction cs arbitrary: st) simp_all

lemma length_knowledge_mark_at [simp]:
  "length (knowledge (mark_at i st)) = length (knowledge st)"
  by (simp add: mark_at_def mark_known_mines_def mark_known_safes_def mark_mines_def
      mark_safes_def split: option.splits)

function mark_scan :: "nat \<Rightarrow> ai \<Rightarrow> ai" where
  "mark_scan i st =
     (if i < length (knowledge st) then mark_scan (Suc i) (mark_at i st) else st)"
  by pat_completeness auto
termination
  by (relation "measure (\<lambda>(i, st). length (knowledge st) - i)") auto

declare mark_scan.simps [simp del]

subsection \<open>Pruning\<close>

text \<open>
  \<open>list.remove(s)\<close> deletes the first element equal to \<open>s\<close> and raises \<open>ValueError\<close>
  when there is none. The four pruning loops run over a snapshot and remove from the
  live list.
\<close>

definition list_remove :: "sentence \<Rightarrow> sentence list \<Rightarrow> error + sentence list" where
  "list_remove s xs = (if s \<in> set xs then Inr (remove1 s xs) else Inl ValueError)"

fun remove_empty_loop :: "sentence list \<Rightarrow> sentence list \<Rightarrow> error + sentence list" where
  "remove_empty_loop [] xs = Inr xs"
| "remove_empty_loop (s # snapshot) xs =
     (if cells s = {||}
      then (case list_remove s xs of
              Inl e \<Rightarrow> Inl e
            | Inr xs' \<Rightarrow> remove_empty_loop snapshot xs')
      else remove_empty_loop snapshot xs)"

fun remove_duplicate_loop :: "sentence list \<Rightarrow> sentence list \<Rightarrow> error + sentence list" where
  "remove_duplicate_loop [] xs = Inr xs"
| "remove_duplicate_loop (s # snapshot) xs =
     (if count_list xs s > 1
      then (case list_remove s xs of
              Inl e \<Rightarrow> Inl e
            | Inr xs' \<Rightarrow> remove_duplicate_loop snapshot xs')
      else remove_duplicate_loop snapshot xs)"

definition remove_empty :: "sentence list \<Rightarrow> error + sentence list" where
  "remove_empty xs = remove_empty_loop xs xs"

definition remove_duplicate :: "sentence list \<Rightarrow> error + sentence list" where
  "remove_duplicate xs = remove_duplicate_loop xs xs"

text \<open>
  One run of the body of the inner \<open>while True\<close> up to its final test: the marking pass
  over the knowledge, then the removal of empty sentences from the knowledge and from
  \<open>new_sentences\<close>, then the removal of duplicates from both.
\<close>

definition inner_pass :: "ai \<Rightarrow> sentence list \<Rightarrow> error + (ai \<times> sentence list)" where
  "inner_pass st new_sentences =
     (let st1 = mark_scan 0 st in
      case remove_empty (knowledge st1) of
        Inl e \<Rightarrow> Inl e
      | Inr k1 \<Rightarrow>
      (case remove_empty new_sentences of
        Inl e \<Rightarrow> Inl e
      | Inr n1 \<Rightarrow>
      (case remove_duplicate k1 of
        Inl e \<Rightarrow> Inl e
      | Inr k2 \<Rightarrow>
      (case remove_duplicate n1 of
        Inl e \<Rightarrow> Inl e
      | Inr n2 \<Rightarrow> Inr (st1\<lparr>knowledge := k2\<rparr>, n2)))))"

subsection \<open>The two loops\<close>

text \<open>
  The inner \<open>while True\<close>: \<open>num_mines\<close> and \<open>num_safes\<close> are the sizes before the pass, and
  the loop goes round again, after \<open>generate_new_knowledge\<close>, when
  \<open>num_mines > len(self.mines) or num_safes > len(self.safes)\<close>. A loop that does not
  return is the value \<open>None\<close>; an exception is \<open>Some (Inl e)\<close>.
\<close>

partial_function (option) inner_loop ::
  "ai \<Rightarrow> sentence list \<Rightarrow> (error + (ai \<times> sentence list)) option" where
  "inner_loop st new_sentences =
     (let num_mines = fcard (mines st); num_safes = fcard (safes st) in
      case inner_pass st new_sentences of
        Inl e \<Rightarrow> Some (Inl e)
      | Inr (st', ns') \<Rightarrow>
          if num_mines > fcard (mines st') \<or> num_safes > fcard (safes st')
          then inner_loop st' (generate_new_knowledge (knowledge st') ns')
          else Some (Inr (st', ns')))"

text \<open>
  The outer \<open>while True\<close>: \<open>new_sentences.pop()\<close> takes the last element and raises
  \<open>IndexError\<close> on an empty list.
\<close>

partial_function (option) outer_loop ::
  "ai \<Rightarrow> sentence list \<Rightarrow> (error + ai) option" where
  "outer_loop st new_sentences =
     (if new_sentences = [] then Some (Inl IndexError)
      else
        (let test_sentence = last new_sentences; ns = butlast new_sentences in
         if test_sentence \<notin> set (knowledge st) then
           (let st1 = st\<lparr>knowledge := knowledge st @ [test_sentence]\<rparr> in
            case inner_loop st1 (generate_new_knowledge (knowledge st1) ns) of
              None \<Rightarrow> None
            | Some (Inl e) \<Rightarrow> Some (Inl e)
            | Some (Inr (st2, ns2)) \<Rightarrow>
                if length ns2 = 0 then Some (Inr st2) else outer_loop st2 ns2)
         else if length ns = 0 then Some (Inr st) else outer_loop st ns))"

text \<open>
  \<open>add_knowledge\<close>: the cell is recorded as a move and marked safe
  (\<open>mark_observed\<close>), the sentence of the observation is built from the state as it is
  then, and the outer loop starts with that sentence alone in \<open>new_sentences\<close>.
\<close>

definition mark_observed :: "cell \<Rightarrow> ai \<Rightarrow> ai" where
  "mark_observed cell st = ai_mark_safe cell (st\<lparr>moves_made := finsert cell (moves_made st)\<rparr>)"

definition add_knowledge :: "cell \<Rightarrow> int \<Rightarrow> ai \<Rightarrow> (error + ai) option" where
  "add_knowledge cell cnt st =
     (let st2 = mark_observed cell st
      in outer_loop st2 [seed_sentence st2 cell cnt])"

declare inner_loop.simps [code]
declare outer_loop.simps [code]

subsection \<open>The board\<close>

text \<open>
  \<open>Minesweeper.nearby_mines\<close>, with the board as the set of its mines: \<open>board[i][j]\<close> is
  read only when \<open>(i, j)\<close> is in bounds, and is true exactly for the mines.
\<close>

definition nearby_step :: "int \<Rightarrow> int \<Rightarrow> cell fset \<Rightarrow> cell \<Rightarrow> cell \<Rightarrow> int \<Rightarrow> int" where
  "nearby_step h w board cell ij n =
     (if ij = cell then n
      else if 0 \<le> fst ij \<and> fst ij < h \<and> 0 \<le> snd ij \<and> snd ij < w
           then (if ij |\<in>| board then n + 1 else n)
           else n)"

definition nearby_mines :: "int \<Rightarrow> int \<Rightarrow> cell fset \<Rightarrow> cell \<Rightarrow> int" where
  "nearby_mines h w board cell =
     fold (nearby_step h w board cell)
       (concat (map (\<lambda>i. map (\<lambda>j. (i, j)) [snd cell - 1, snd cell, snd cell + 1])
                    [fst cell - 1, fst cell, fst cell + 1]))
       0"

section \<open>Auxiliary definitions\<close>

subsection \<open>Neighbourhoods and pruned lists, as the specification words them\<close>

text \<open>
  \<open>inside\<close>: the cell is on the board of the AI. \<open>chebyshev\<close>: the Chebyshev distance of
  two cells. \<open>pruned\<close>: no two sentences equal, none with an empty set of cells.
\<close>

definition inside :: "ai \<Rightarrow> cell \<Rightarrow> bool" where
  "inside st n \<longleftrightarrow> 0 \<le> fst n \<and> fst n < height st \<and> 0 \<le> snd n \<and> snd n < width st"

definition chebyshev :: "cell \<Rightarrow> cell \<Rightarrow> int" where
  "chebyshev a b = max \<bar>fst a - fst b\<bar> \<bar>snd a - snd b\<bar>"

definition pruned :: "sentence list \<Rightarrow> bool" where
  "pruned kn \<longleftrightarrow> distinct kn \<and> (\<forall>s \<in> set kn. cells s \<noteq> {||})"

subsection \<open>Marking a set of cells at once\<close>

text \<open>
  What \<open>Sentence.mark_mine\<close> (\<open>Sentence.mark_safe\<close>) does to a sentence when it is called
  for every cell of a set, and the cells that the double loop of \<open>add_knowledge\<close> visits.
\<close>

definition strip_mines :: "cell fset \<Rightarrow> sentence \<Rightarrow> sentence" where
  "strip_mines C s = \<lparr>cells = cells s |-| C, count = count s - int (fcard (cells s |\<inter>| C))\<rparr>"

definition strip_safes :: "cell fset \<Rightarrow> sentence \<Rightarrow> sentence" where
  "strip_safes C s = \<lparr>cells = cells s |-| C, count = count s\<rparr>"

definition shift :: "cell \<Rightarrow> int \<times> int \<Rightarrow> cell" where
  "shift cell ij = (fst cell + fst ij, snd cell + snd ij)"

definition around :: "cell \<Rightarrow> cell list" where
  "around cell = map (shift cell) offsets"

subsection \<open>Boards, and the work left to the outer loop\<close>

text \<open>
  A sentence is \<open>truthful\<close> for a board (the set of its mines) when its count is the
  number of mines among its cells. A state of the AI is \<open>consistent\<close> with a board when
  every sentence of the knowledge is truthful, every cell of \<open>mines\<close> is a mine and no
  cell of \<open>safes\<close> is one: this is what observations taken from one board, with the counts
  \<open>nearby_mines\<close> gives, keep true.
\<close>

definition truthful :: "cell fset \<Rightarrow> sentence \<Rightarrow> bool" where
  "truthful board s \<longleftrightarrow> count s = int (fcard (cells s |\<inter>| board))"

definition consistent :: "cell fset \<Rightarrow> ai \<Rightarrow> bool" where
  "consistent board st \<longleftrightarrow>
     (\<forall>s \<in> set (knowledge st). truthful board s) \<and> mines st |\<subseteq>| board \<and>
     safes st |\<inter>| board = {||}"

text \<open>
  The measure of the outer loop. \<open>underived kn\<close> are the sets of cells that the subset
  rule can still produce from the knowledge: the non-empty proper subsets of a sentence,
  not yet the cells of a sentence. \<open>work\<close> adds the cells of the waiting sentences.
  \<open>weight\<close> makes a set weigh more than all its proper subsets together, so that moving
  one sentence from \<open>new_sentences\<close> to the knowledge lowers the \<open>potential\<close> whatever
  it lets the subset rule produce.
\<close>

definition underived :: "sentence list \<Rightarrow> cell fset set" where
  "underived kn = {X. X \<noteq> {||} \<and> (\<exists>s \<in> set kn. X |\<subset>| cells s)} - cells ` set kn"

definition work :: "sentence list \<Rightarrow> sentence list \<Rightarrow> cell fset set" where
  "work kn ns = cells ` set ns \<union> underived kn"

fun weight :: "nat \<Rightarrow> nat" where
  "weight 0 = 1"
| "weight (Suc k) = 2 ^ Suc k * weight k + 1"

definition potential :: "sentence list \<Rightarrow> sentence list \<Rightarrow> nat" where
  "potential kn ns = (\<Sum>X \<in> work kn ns. weight (fcard X))"

subsection \<open>Four short games\<close>

text \<open>
  The states of the AI in four games, each on a board whose mines are fixed and each
  observation a safe cell with the count \<open>nearby_mines\<close> gives for it.

  Game \<open>line_left\<close>: one row of four cells, the only mine at \<open>(0, 0)\<close>; the cells
  \<open>(0, 1)\<close> (count 1) and \<open>(0, 3)\<close> (count 0) are observed.
\<close>

definition line_left_1 :: ai where
  "line_left_1 = \<lparr>height = 1, width = 4, moves_made = {|(0, 1)|}, mines = {||},
     safes = {|(0, 1)|}, knowledge = [\<lparr>cells = {|(0, 0), (0, 2)|}, count = 1\<rparr>]\<rparr>"

definition line_left_2 :: ai where
  "line_left_2 = \<lparr>height = 1, width = 4, moves_made = {|(0, 1), (0, 3)|}, mines = {||},
     safes = {|(0, 1), (0, 2), (0, 3)|}, knowledge = [\<lparr>cells = {|(0, 0)|}, count = 1\<rparr>]\<rparr>"

text \<open>
  The state of game \<open>line_left\<close> inside the second call, when the inner loop is entered:
  \<open>(0, 3)\<close> is marked safe and its sentence is appended.
\<close>

definition line_left_inner :: ai where
  "line_left_inner = \<lparr>height = 1, width = 4, moves_made = {|(0, 1), (0, 3)|}, mines = {||},
     safes = {|(0, 1), (0, 3)|},
     knowledge = [\<lparr>cells = {|(0, 0), (0, 2)|}, count = 1\<rparr>, \<lparr>cells = {|(0, 2)|}, count = 0\<rparr>]\<rparr>"

text \<open>
  Game \<open>line_mid\<close>: one row of four cells, the only mine at \<open>(0, 2)\<close>; the cells
  \<open>(0, 1)\<close> (count 1), \<open>(0, 3)\<close> (count 1) and \<open>(0, 0)\<close> (count 0) are observed. Its
  first state is \<open>line_left_1\<close>.
\<close>

definition line_mid_2 :: ai where
  "line_mid_2 = \<lparr>height = 1, width = 4, moves_made = {|(0, 1), (0, 3)|}, mines = {|(0, 2)|},
     safes = {|(0, 1), (0, 3)|}, knowledge = [\<lparr>cells = {|(0, 0)|}, count = 0\<rparr>]\<rparr>"

definition line_mid_3 :: ai where
  "line_mid_3 = \<lparr>height = 1, width = 4, moves_made = {|(0, 0), (0, 1), (0, 3)|},
     mines = {|(0, 2)|}, safes = {|(0, 0), (0, 1), (0, 3)|},
     knowledge = [\<lparr>cells = {||}, count = 0\<rparr>]\<rparr>"

text \<open>
  Game \<open>tall\<close>: three rows of two cells, mines at \<open>(0, 1)\<close> and \<open>(1, 0)\<close>; the cells
  \<open>(0, 0)\<close> (count 2), \<open>(2, 0)\<close> (count 1) and \<open>(2, 1)\<close> (count 1) are observed.
\<close>

definition tall_1 :: ai where
  "tall_1 = \<lparr>height = 3, width = 2, moves_made = {|(0, 0)|}, mines = {||},
     safes = {|(0, 0)|}, knowledge = [\<lparr>cells = {|(0, 1), (1, 0), (1, 1)|}, count = 2\<rparr>]\<rparr>"

definition tall_2 :: ai where
  "tall_2 = \<lparr>height = 3, width = 2, moves_made = {|(0, 0), (2, 0)|}, mines = {||},
     safes = {|(0, 0), (2, 0)|},
     knowledge = [\<lparr>cells = {|(0, 1), (1, 0), (1, 1)|}, count = 2\<rparr>,
                  \<lparr>cells = {|(1, 0), (1, 1), (2, 1)|}, count = 1\<rparr>]\<rparr>"

definition tall_3 :: ai where
  "tall_3 = \<lparr>height = 3, width = 2, moves_made = {|(0, 0), (2, 0), (2, 1)|}, mines = {||},
     safes = {|(0, 0), (2, 0), (2, 1)|},
     knowledge = [\<lparr>cells = {|(0, 1), (1, 0), (1, 1)|}, count = 2\<rparr>,
                  \<lparr>cells = {|(1, 0), (1, 1)|}, count = 1\<rparr>]\<rparr>"

text \<open>
  Game \<open>square\<close>: three rows of three cells, mines at \<open>(0, 0)\<close> and \<open>(0, 1)\<close>; the cells
  \<open>(0, 2)\<close> (count 1), \<open>(1, 0)\<close> (count 2) and \<open>(1, 1)\<close> (count 2) are observed.
\<close>

definition square_1 :: ai where
  "square_1 = \<lparr>height = 3, width = 3, moves_made = {|(0, 2)|}, mines = {||},
     safes = {|(0, 2)|}, knowledge = [\<lparr>cells = {|(0, 1), (1, 1), (1, 2)|}, count = 1\<rparr>]\<rparr>"

definition square_2 :: ai where
  "square_2 = \<lparr>height = 3, width = 3, moves_made = {|(0, 2), (1, 0)|}, mines = {||},
     safes = {|(0, 2), (1, 0)|},
     knowledge = [\<lparr>cells = {|(0, 1), (1, 1), (1, 2)|}, count = 1\<rparr>,
                  \<lparr>cells = {|(0, 0), (0, 1), (1, 1), (2, 0), (2, 1)|}, count = 2\<rparr>]\<rparr>"

definition square_3 :: ai where
  "square_3 = \<lparr>height = 3, width = 3, moves_made = {|(0, 2), (1, 0), (1, 1)|},
     mines = {|(0, 1)|}, safes = {|(0, 2), (1, 0), (1, 1), (1, 2), (2, 2)|},
     knowledge = [\<lparr>cells = {|(0, 0), (2, 0), (2, 1)|}, count = 1\<rparr>,
                  \<lparr>cells = {|(0, 0), (2, 0), (2, 1), (2, 2)|}, count = 1\<rparr>]\<rparr>"

section \<open>Lemmas\<close>

lemma count_list_remove1:
  "count_list (remove1 s xs) t =
     (if s = t \<and> s \<in> set xs then count_list xs t - 1 else count_list xs t)"
  by (induction xs) auto

lemma filter_remove1_irrelevant: "\<not> P s \<Longrightarrow> filter P (remove1 s xs) = filter P xs"
  by (induction xs) auto

lemma count_list_pos_iff: "0 < count_list xs s \<longleftrightarrow> s \<in> set xs"
  by (induction xs) auto

lemma remove_empty_loop_filter:
  "(\<And>t. cells t = {||} \<Longrightarrow> count_list snapshot t = count_list xs t) \<Longrightarrow>
   remove_empty_loop snapshot xs = Inr (filter (\<lambda>s. cells s \<noteq> {||}) xs)"
proof (induction snapshot arbitrary: xs)
  case Nil
  have "\<And>t. t \<in> set xs \<Longrightarrow> cells t \<noteq> {||}"
  proof
    fix t assume "t \<in> set xs" "cells t = {||}"
    with Nil [of t] show False by (simp add: count_list_pos_iff [symmetric])
  qed
  then have "filter (\<lambda>s. cells s \<noteq> {||}) xs = xs" by (simp add: filter_id_conv)
  then show ?case by simp
next
  case (Cons s snapshot)
  show ?case
  proof (cases "cells s = {||}")
    case True
    from Cons.prems [OF True] have "0 < count_list xs s" by simp
    then have mem: "s \<in> set xs" by (simp add: count_list_pos_iff)
    have "remove_empty_loop snapshot (remove1 s xs)
            = Inr (filter (\<lambda>s. cells s \<noteq> {||}) (remove1 s xs))"
    proof (rule Cons.IH)
      fix t :: sentence assume t: "cells t = {||}"
      from Cons.prems [OF t] mem show "count_list snapshot t = count_list (remove1 s xs) t"
        by (auto simp: count_list_remove1)
    qed
    with True mem show ?thesis
      by (simp add: list_remove_def filter_remove1_irrelevant)
  next
    case False
    have "remove_empty_loop snapshot xs = Inr (filter (\<lambda>s. cells s \<noteq> {||}) xs)"
    proof (rule Cons.IH)
      fix t :: sentence assume t: "cells t = {||}"
      with False have "t \<noteq> s" by auto
      with Cons.prems [OF t] show "count_list snapshot t = count_list xs t" by simp
    qed
    with False show ?thesis by simp
  qed
qed

lemma remove_empty_eq: "remove_empty xs = Inr (filter (\<lambda>s. cells s \<noteq> {||}) xs)"
  unfolding remove_empty_def by (rule remove_empty_loop_filter) simp

lemma set_remove1_dup: "1 < count_list xs s \<Longrightarrow> set (remove1 s xs) = set xs"
proof (induction xs)
  case Nil
  then show ?case by simp
next
  case (Cons x xs)
  show ?case
  proof (cases "x = s")
    case True
    with Cons.prems have "0 < count_list xs s" by simp
    then have "s \<in> set xs" by (simp add: count_list_pos_iff)
    with True show ?thesis by auto
  next
    case False
    with Cons show ?thesis by auto
  qed
qed

lemma count_list_le_1_distinct: "(\<And>t. count_list xs t \<le> 1) \<Longrightarrow> distinct xs"
proof (induction xs)
  case Nil
  then show ?case by simp
next
  case (Cons x xs)
  have "x \<notin> set xs"
  proof
    assume "x \<in> set xs"
    then have "0 < count_list xs x" by (simp add: count_list_pos_iff)
    with Cons.prems [of x] show False by simp
  qed
  moreover have "distinct xs"
  proof (rule Cons.IH)
    fix t from Cons.prems [of t] show "count_list xs t \<le> 1" by (simp split: if_splits)
  qed
  ultimately show ?case by simp
qed

lemma remove_duplicate_loop_distinct:
  "(\<And>t. count_list xs t \<le> Suc (count_list snapshot t)) \<Longrightarrow>
   \<exists>ys. remove_duplicate_loop snapshot xs = Inr ys \<and> distinct ys \<and> set ys = set xs"
proof (induction snapshot arbitrary: xs)
  case Nil
  from Nil have "\<And>t. count_list xs t \<le> 1" by simp
  then have "distinct xs" by (rule count_list_le_1_distinct)
  then show ?case by simp
next
  case (Cons s snapshot)
  show ?case
  proof (cases "1 < count_list xs s")
    case True
    then have "0 < count_list xs s" by simp
    then have mem: "s \<in> set xs" by (simp add: count_list_pos_iff)
    have "\<exists>ys. remove_duplicate_loop snapshot (remove1 s xs) = Inr ys \<and> distinct ys \<and>
            set ys = set (remove1 s xs)"
    proof (rule Cons.IH)
      fix t
      from Cons.prems [of t] True mem
      show "count_list (remove1 s xs) t \<le> Suc (count_list snapshot t)"
        by (auto simp: count_list_remove1)
    qed
    with True mem show ?thesis
      by (simp add: list_remove_def set_remove1_dup)
  next
    case False
    have "\<exists>ys. remove_duplicate_loop snapshot xs = Inr ys \<and> distinct ys \<and> set ys = set xs"
    proof (rule Cons.IH)
      fix t
      from Cons.prems [of t] False
      show "count_list xs t \<le> Suc (count_list snapshot t)"
        by (cases "t = s") auto
    qed
    with False show ?thesis by simp
  qed
qed

lemma remove_duplicate_ex:
  "\<exists>ys. remove_duplicate xs = Inr ys \<and> distinct ys \<and> set ys = set xs"
  unfolding remove_duplicate_def by (rule remove_duplicate_loop_distinct) simp

lemma inner_pass_ex:
  "\<exists>k2 n2. inner_pass st ns = Inr ((mark_scan 0 st)\<lparr>knowledge := k2\<rparr>, n2) \<and>
     distinct k2 \<and> set k2 = {s \<in> set (knowledge (mark_scan 0 st)). cells s \<noteq> {||}} \<and>
     distinct n2 \<and> set n2 = {s \<in> set ns. cells s \<noteq> {||}}"
proof -
  obtain k2 where k2: "remove_duplicate (filter (\<lambda>s. cells s \<noteq> {||}) (knowledge (mark_scan 0 st))) = Inr k2"
    "distinct k2" "set k2 = set (filter (\<lambda>s. cells s \<noteq> {||}) (knowledge (mark_scan 0 st)))"
    using remove_duplicate_ex by blast
  obtain n2 where n2: "remove_duplicate (filter (\<lambda>s. cells s \<noteq> {||}) ns) = Inr n2"
    "distinct n2" "set n2 = set (filter (\<lambda>s. cells s \<noteq> {||}) ns)"
    using remove_duplicate_ex by blast
  have "inner_pass st ns = Inr ((mark_scan 0 st)\<lparr>knowledge := k2\<rparr>, n2)"
    by (simp add: inner_pass_def Let_def remove_empty_eq k2(1) n2(1))
  with k2 n2 show ?thesis by auto
qed

lemma strip_mines_empty [simp]: "strip_mines {||} = (\<lambda>s. s)"
  by (rule ext) (simp add: strip_mines_def)

lemma strip_safes_empty [simp]: "strip_safes {||} = (\<lambda>s. s)"
  by (rule ext) (simp add: strip_safes_def)

lemma sentence_mark_mine_strip:
  "sentence_mark_mine c (strip_mines C s) = strip_mines (finsert c C) s"
proof (cases "c |\<in>| cells s |-| C")
  case True
  then have "cells s |\<inter>| finsert c C = finsert c (cells s |\<inter>| C)" "c |\<notin>| cells s |\<inter>| C"
    by auto
  then have "fcard (cells s |\<inter>| finsert c C) = Suc (fcard (cells s |\<inter>| C))"
    by (simp add: fcard_finsert_disjoint)
  moreover have "cells s |-| C |-| {|c|} = cells s |-| finsert c C" by auto
  ultimately show ?thesis using True
    by (simp add: sentence_mark_mine_def strip_mines_def)
next
  case False
  then have "cells s |\<inter>| finsert c C = cells s |\<inter>| C" "cells s |-| finsert c C = cells s |-| C"
    by auto
  with False show ?thesis
    by (simp add: sentence_mark_mine_def strip_mines_def)
qed

lemma sentence_mark_safe_strip:
  "sentence_mark_safe c (strip_safes C s) = strip_safes (finsert c C) s"
proof -
  have "cells s |-| C |-| {|c|} = cells s |-| finsert c C" by auto
  moreover have "c |\<notin>| cells s |-| C \<Longrightarrow> cells s |-| finsert c C = cells s |-| C" by auto
  ultimately show ?thesis
    by (auto simp: sentence_mark_safe_def strip_safes_def)
qed

lemma ai_mark_mine_eq:
  "ai_mark_mine c st =
     st\<lparr>mines := finsert c (mines st), knowledge := map (sentence_mark_mine c) (knowledge st)\<rparr>"
  by (auto simp: ai_mark_mine_def Let_def finsert_absorb)

lemma ai_mark_safe_eq:
  "ai_mark_safe c st =
     st\<lparr>safes := finsert c (safes st), knowledge := map (sentence_mark_safe c) (knowledge st)\<rparr>"
  by (auto simp: ai_mark_safe_def Let_def finsert_absorb)

lemma fold_ai_mark_mine_strip:
  "fold ai_mark_mine cs (st\<lparr>mines := mines st |\<union>| C, knowledge := map (strip_mines C) (knowledge st)\<rparr>)
     = st\<lparr>mines := mines st |\<union>| (C |\<union>| fset_of_list cs),
          knowledge := map (strip_mines (C |\<union>| fset_of_list cs)) (knowledge st)\<rparr>"
proof (induction cs arbitrary: C)
  case Nil
  then show ?case by simp
next
  case (Cons c cs)
  have "ai_mark_mine c (st\<lparr>mines := mines st |\<union>| C, knowledge := map (strip_mines C) (knowledge st)\<rparr>)
      = st\<lparr>mines := mines st |\<union>| finsert c C, knowledge := map (strip_mines (finsert c C)) (knowledge st)\<rparr>"
    by (simp add: ai_mark_mine_eq sentence_mark_mine_strip comp_def)
  then show ?case using Cons.IH [of "finsert c C"] by simp
qed

lemma fold_ai_mark_safe_strip:
  "fold ai_mark_safe cs (st\<lparr>safes := safes st |\<union>| C, knowledge := map (strip_safes C) (knowledge st)\<rparr>)
     = st\<lparr>safes := safes st |\<union>| (C |\<union>| fset_of_list cs),
          knowledge := map (strip_safes (C |\<union>| fset_of_list cs)) (knowledge st)\<rparr>"
proof (induction cs arbitrary: C)
  case Nil
  then show ?case by simp
next
  case (Cons c cs)
  have "ai_mark_safe c (st\<lparr>safes := safes st |\<union>| C, knowledge := map (strip_safes C) (knowledge st)\<rparr>)
      = st\<lparr>safes := safes st |\<union>| finsert c C, knowledge := map (strip_safes (finsert c C)) (knowledge st)\<rparr>"
    by (simp add: ai_mark_safe_eq sentence_mark_safe_strip comp_def)
  then show ?case using Cons.IH [of "finsert c C"] by simp
qed

lemma fold_ai_mark_mine_eq:
  "fold ai_mark_mine cs st =
     st\<lparr>mines := mines st |\<union>| fset_of_list cs,
        knowledge := map (strip_mines (fset_of_list cs)) (knowledge st)\<rparr>"
  using fold_ai_mark_mine_strip [where cs = cs and st = st and C = "{||}"] by simp

lemma fold_ai_mark_safe_eq:
  "fold ai_mark_safe cs st =
     st\<lparr>safes := safes st |\<union>| fset_of_list cs,
        knowledge := map (strip_safes (fset_of_list cs)) (knowledge st)\<rparr>"
  using fold_ai_mark_safe_strip [where cs = cs and st = st and C = "{||}"] by simp

lemma mark_mines_eq:
  "mark_mines ms st =
     st\<lparr>mines := mines st |\<union>| ms, knowledge := map (strip_mines ms) (knowledge st)\<rparr>"
  by (simp add: mark_mines_def fold_ai_mark_mine_eq)

lemma mark_safes_eq:
  "mark_safes ss st =
     st\<lparr>safes := safes st |\<union>| ss, knowledge := map (strip_safes ss) (knowledge st)\<rparr>"
  by (simp add: mark_safes_def fold_ai_mark_safe_eq)

lemma mark_mines_any_order:
  "fset_of_list cs = ms \<Longrightarrow> fold ai_mark_mine cs st = mark_mines ms st"
  by (simp add: mark_mines_eq fold_ai_mark_mine_eq)

lemma mark_safes_any_order:
  "fset_of_list cs = ss \<Longrightarrow> fold ai_mark_safe cs st = mark_safes ss st"
  by (simp add: mark_safes_eq fold_ai_mark_safe_eq)

lemma mark_at_facts:
  "mines st |\<subseteq>| mines (mark_at i st)" "safes st |\<subseteq>| safes (mark_at i st)"
  "height (mark_at i st) = height st" "width (mark_at i st) = width st"
  "moves_made (mark_at i st) = moves_made st"
  by (auto simp: mark_at_def mark_known_mines_def mark_known_safes_def mark_mines_eq
      mark_safes_eq split: option.splits)

lemma mark_scan_facts:
  "mines st |\<subseteq>| mines (mark_scan i st) \<and> safes st |\<subseteq>| safes (mark_scan i st) \<and>
   height (mark_scan i st) = height st \<and> width (mark_scan i st) = width st \<and>
   moves_made (mark_scan i st) = moves_made st \<and>
   length (knowledge (mark_scan i st)) = length (knowledge st)"
proof (induction i st rule: mark_scan.induct)
  case (1 i st)
  show ?case
  proof (cases "i < length (knowledge st)")
    case True
    with 1 mark_at_facts [where st = st and i = i] show ?thesis
      by (subst (1 2 3 4 5 6) mark_scan.simps) auto
  next
    case False
    then show ?thesis by (subst (1 2 3 4 5 6) mark_scan.simps) simp
  qed
qed

lemma inner_loop_eq: "inner_loop st ns = Some (inner_pass st ns)"
proof -
  obtain k2 n2 where p: "inner_pass st ns = Inr ((mark_scan 0 st)\<lparr>knowledge := k2\<rparr>, n2)"
    using inner_pass_ex by blast
  have "fcard (mines st) \<le> fcard (mines (mark_scan 0 st))"
    "fcard (safes st) \<le> fcard (safes (mark_scan 0 st))"
    using mark_scan_facts [where st = st and i = 0] by (auto intro: fcard_mono)
  then show ?thesis
    by (subst inner_loop.simps) (simp add: p Let_def)
qed

lemma seed_fold:
  "fold (seed_step st cell) os acc =
     (fst acc |\<union>| fset_of_list (filter (\<lambda>n. inside st n \<and> n |\<notin>| safes st \<and> n |\<notin>| mines st)
                                   (map (shift cell) os)),
      snd acc + int (length (filter (\<lambda>n. inside st n \<and> n |\<notin>| safes st \<and> n |\<in>| mines st)
                                   (map (shift cell) os))))"
proof (induction os arbitrary: acc)
  case Nil
  then show ?case by simp
next
  case (Cons ij os)
  show ?case
    by (simp add: Cons.IH) (auto simp: seed_step_def Let_def shift_def inside_def)
qed

lemma seed_sentence_eq:
  "seed_sentence st cell cnt =
     \<lparr>cells = fset_of_list (filter (\<lambda>n. inside st n \<and> n |\<notin>| safes st \<and> n |\<notin>| mines st)
                (around cell)),
      count = cnt - int (length (filter (\<lambda>n. inside st n \<and> n |\<notin>| safes st \<and> n |\<in>| mines st)
                (around cell)))\<rparr>"
  by (simp add: seed_sentence_def Let_def seed_fold around_def)

lemma distinct_around: "distinct (around cell)"
  by (cases cell) (simp add: around_def offsets_def shift_def)

lemma set_around: "set (around cell) = {n. chebyshev n cell \<le> 1}"
proof -
  have "n \<in> set (around cell) \<longleftrightarrow> chebyshev n cell \<le> 1" for n
  proof (cases n)
    case (Pair a b)
    have "(a, b) \<in> set (around cell) \<longleftrightarrow>
        (a = fst cell - 1 \<or> a = fst cell \<or> a = fst cell + 1) \<and>
        (b = snd cell - 1 \<or> b = snd cell \<or> b = snd cell + 1)"
      by (auto simp: around_def offsets_def shift_def)
    also have "\<dots> \<longleftrightarrow> \<bar>a - fst cell\<bar> \<le> 1 \<and> \<bar>b - snd cell\<bar> \<le> 1" by arith
    finally show ?thesis using Pair by (simp add: chebyshev_def)
  qed
  then show ?thesis by auto
qed

lemma chebyshev_zero: "chebyshev n cell \<le> 0 \<longleftrightarrow> n = cell"
  by (cases n; cases cell) (auto simp: chebyshev_def)

lemma chebyshev_one: "chebyshev n cell = 1 \<longleftrightarrow> chebyshev n cell \<le> 1 \<and> n \<noteq> cell"
  using chebyshev_zero [of n cell] by arith

lemma mark_observed_fields:
  "safes (mark_observed cell st) = finsert cell (safes st)"
  "mines (mark_observed cell st) = mines st"
  "height (mark_observed cell st) = height st"
  "width (mark_observed cell st) = width st"
  "moves_made (mark_observed cell st) = finsert cell (moves_made st)"
  "knowledge (mark_observed cell st) = map (sentence_mark_safe cell) (knowledge st)"
  by (auto simp: mark_observed_def ai_mark_safe_def Let_def finsert_absorb)

lemma inside_mark_observed [simp]: "inside (mark_observed cell st) n = inside st n"
  by (simp add: inside_def mark_observed_fields)

lemma seed_cells:
  "fset (cells (seed_sentence (mark_observed cell st) cell cnt)) =
     {n. inside st n \<and> chebyshev n cell = 1 \<and>
         n |\<notin>| safes (mark_observed cell st) \<and> n |\<notin>| mines (mark_observed cell st)}"
  by (auto simp: seed_sentence_eq fset_of_list.rep_eq set_around chebyshev_one
      mark_observed_fields)

lemma seed_count:
  assumes "mines st |\<inter>| safes st = {||}"
  shows "count (seed_sentence (mark_observed cell st) cell cnt) =
     cnt - int (card {n. inside st n \<and> chebyshev n cell = 1 \<and> n |\<in>| mines (mark_observed cell st)})"
proof -
  let ?st2 = "mark_observed cell st"
  let ?Q = "\<lambda>n. inside ?st2 n \<and> n |\<notin>| safes ?st2 \<and> n |\<in>| mines ?st2"
  have "length (filter ?Q (around cell)) = card (set (filter ?Q (around cell)))"
    by (rule distinct_card [symmetric]) (simp add: distinct_around)
  also have "set (filter ?Q (around cell)) =
      {n. inside st n \<and> chebyshev n cell = 1 \<and> n |\<in>| mines ?st2}"
    using assms by (auto simp: set_around chebyshev_one mark_observed_fields)
  finally show ?thesis by (simp add: seed_sentence_eq)
qed

lemma inner_pass_pruned:
  "inner_pass st ns = Inr (st2, ns2) \<Longrightarrow> pruned (knowledge st2)"
  using inner_pass_ex [of st ns] by (auto simp: pruned_def)

lemma inner_pass_total: "\<exists>st2 ns2. inner_pass st ns = Inr (st2, ns2)"
  using inner_pass_ex [of st ns] by blast

lemma outer_loop_unfold:
  "outer_loop st new_sentences =
     (if new_sentences = [] then Some (Inl IndexError)
      else if last new_sentences \<notin> set (knowledge st) then
        (case inner_pass (st\<lparr>knowledge := knowledge st @ [last new_sentences]\<rparr>)
                (generate_new_knowledge (knowledge st @ [last new_sentences])
                   (butlast new_sentences)) of
           Inl e \<Rightarrow> Some (Inl e)
         | Inr (st2, ns2) \<Rightarrow> if length ns2 = 0 then Some (Inr st2) else outer_loop st2 ns2)
      else if length (butlast new_sentences) = 0 then Some (Inr st)
      else outer_loop st (butlast new_sentences))"
  by (subst outer_loop.simps) (simp add: Let_def inner_loop_eq)

lemma outer_body_eq:
  "(if ns = [] then Some (Inl IndexError)
      else let test_sentence = last ns; ns' = butlast ns
           in if test_sentence \<notin> set (knowledge st)
              then let st1 = st\<lparr>knowledge := knowledge st @ [test_sentence]\<rparr>
                   in case inner_loop st1 (generate_new_knowledge (knowledge st1) ns') of
                      None \<Rightarrow> None | Some (Inl e) \<Rightarrow> Some (Inl e)
                      | Some (Inr (st2, ns2)) \<Rightarrow>
                          if length ns2 = 0 then Some (Inr st2) else f st2 ns2
              else if length ns' = 0 then Some (Inr st) else f st ns')
   = (if ns = [] then Some (Inl IndexError)
      else if last ns \<notin> set (knowledge st)
           then case inner_pass (st\<lparr>knowledge := knowledge st @ [last ns]\<rparr>)
                  (generate_new_knowledge (knowledge st @ [last ns]) (butlast ns)) of
                  Inl e \<Rightarrow> Some (Inl e)
                | Inr (st2, ns2) \<Rightarrow> if length ns2 = 0 then Some (Inr st2) else f st2 ns2
           else if length (butlast ns) = 0 then Some (Inr st) else f st (butlast ns))"
  by (simp add: Let_def inner_loop_eq)

lemma outer_loop_pruned_aux:
  assumes "outer_loop st ns = Some r"
  shows "pruned (knowledge st) \<longrightarrow> (\<forall>st'. r = Inr st' \<longrightarrow> pruned (knowledge st'))"
proof (rule outer_loop.raw_induct
    [where P = "\<lambda>st ns r. pruned (knowledge st) \<longrightarrow> (\<forall>st'. r = Inr st' \<longrightarrow> pruned (knowledge st'))"
       and st = st and new_sentences = ns and y = r])
  show "outer_loop st ns = Some r" by fact
next
  fix f :: "ai \<Rightarrow> sentence list \<Rightarrow> (error + ai) option" and st ns r
  assume IH: "\<And>st ns y. f st ns = Some y \<Longrightarrow>
      pruned (knowledge st) \<longrightarrow> (\<forall>st'. y = Inr st' \<longrightarrow> pruned (knowledge st'))"
  assume "(if ns = [] then Some (Inl IndexError)
      else let test_sentence = last ns; ns' = butlast ns
           in if test_sentence \<notin> set (knowledge st)
              then let st1 = st\<lparr>knowledge := knowledge st @ [test_sentence]\<rparr>
                   in case inner_loop st1 (generate_new_knowledge (knowledge st1) ns') of
                      None \<Rightarrow> None | Some (Inl e) \<Rightarrow> Some (Inl e)
                      | Some (Inr (st2, ns2)) \<Rightarrow>
                          if length ns2 = 0 then Some (Inr st2) else f st2 ns2
              else if length ns' = 0 then Some (Inr st) else f st ns') = Some r"
  then have eq: "(if ns = [] then Some (Inl IndexError)
      else if last ns \<notin> set (knowledge st)
           then case inner_pass (st\<lparr>knowledge := knowledge st @ [last ns]\<rparr>)
                  (generate_new_knowledge (knowledge st @ [last ns]) (butlast ns)) of
                  Inl e \<Rightarrow> Some (Inl e)
                | Inr (st2, ns2) \<Rightarrow> if length ns2 = 0 then Some (Inr st2) else f st2 ns2
           else if length (butlast ns) = 0 then Some (Inr st) else f st (butlast ns)) = Some r"
    by (simp only: outer_body_eq)
  show "pruned (knowledge st) \<longrightarrow> (\<forall>st'. r = Inr st' \<longrightarrow> pruned (knowledge st'))"
  proof (intro impI allI)
    fix st' assume pr: "pruned (knowledge st)" and r: "r = Inr st'"
    show "pruned (knowledge st')"
    proof (cases "last ns \<in> set (knowledge st)")
      case True
      show ?thesis
      proof (cases "length (butlast ns) = 0")
        case b: True
        with eq True r have "st' = st" by (simp split: if_splits)
        with pr show ?thesis by simp
      next
        case b: False
        with eq True r have "f st (butlast ns) = Some r" by (simp split: if_splits)
        from IH [OF this] pr r show ?thesis by blast
      qed
    next
      case False
      obtain st2 ns2 where p: "inner_pass (st\<lparr>knowledge := knowledge st @ [last ns]\<rparr>)
          (generate_new_knowledge (knowledge st @ [last ns]) (butlast ns)) = Inr (st2, ns2)"
        using inner_pass_total by blast
      from p have pr2: "pruned (knowledge st2)" by (rule inner_pass_pruned)
      show ?thesis
      proof (cases "length ns2 = 0")
        case True
        with eq False p r have "st' = st2" by (simp split: if_splits)
        with pr2 show ?thesis by simp
      next
        case ne: False
        with eq False p r have "f st2 ns2 = Some r" by (simp split: if_splits)
        from IH [OF this] pr2 r show ?thesis by blast
      qed
    qed
  qed
qed

lemma outer_loop_pruned:
  "outer_loop st ns = Some (Inr st') \<Longrightarrow> pruned (knowledge st) \<Longrightarrow> pruned (knowledge st')"
  using outer_loop_pruned_aux by blast

lemma ai_mark_mine_removes:
  "c |\<in>| mines (ai_mark_mine c st) \<and> (\<forall>s \<in> set (knowledge (ai_mark_mine c st)). c |\<notin>| cells s)"
  by (auto simp: ai_mark_mine_eq sentence_mark_mine_def)

lemma ai_mark_safe_removes:
  "c |\<in>| safes (ai_mark_safe c st) \<and> (\<forall>s \<in> set (knowledge (ai_mark_safe c st)). c |\<notin>| cells s)"
  by (auto simp: ai_mark_safe_eq sentence_mark_safe_def)

subsection \<open>Consistency with a board is kept\<close>

lemma truthful_strip_mines:
  assumes "truthful M s" "C |\<subseteq>| M"
  shows "truthful M (strip_mines C s)"
proof -
  have "cells s |\<inter>| M = ((cells s |-| C) |\<inter>| M) |\<union>| (cells s |\<inter>| C)"
    using assms(2) by auto
  moreover have "((cells s |-| C) |\<inter>| M) |\<inter>| (cells s |\<inter>| C) = {||}" by auto
  ultimately have "fcard (cells s |\<inter>| M) =
      fcard ((cells s |-| C) |\<inter>| M) + fcard (cells s |\<inter>| C)"
    by (metis fcard_funion_disjoint)
  with assms(1) show ?thesis by (simp add: truthful_def strip_mines_def)
qed

lemma truthful_strip_safes:
  assumes "truthful M s" "C |\<inter>| M = {||}"
  shows "truthful M (strip_safes C s)"
proof -
  have "(cells s |-| C) |\<inter>| M = cells s |\<inter>| M" using assms(2) by auto
  with assms(1) show ?thesis by (simp add: truthful_def strip_safes_def)
qed

lemma known_mines_truthful:
  assumes "known_mines s = Some ms" "truthful M s"
  shows "ms |\<subseteq>| M"
proof -
  from assms have ms: "ms = cells s" and "fcard (cells s) = fcard (cells s |\<inter>| M)"
    by (auto simp: known_mines_def truthful_def split: if_splits)
  then have "cells s |\<inter>| M = cells s"
    by (intro fcard_seteq) auto
  with ms show ?thesis by auto
qed

lemma known_safes_truthful:
  assumes "known_safes s = Some ss" "truthful M s"
  shows "ss |\<inter>| M = {||}"
  using assms by (auto simp: known_safes_def truthful_def split: if_splits)

lemma consistent_mark_mines:
  "consistent M st \<Longrightarrow> ms |\<subseteq>| M \<Longrightarrow> consistent M (mark_mines ms st)"
  by (auto simp: consistent_def mark_mines_eq truthful_strip_mines)

lemma consistent_mark_safes:
  "consistent M st \<Longrightarrow> ss |\<inter>| M = {||} \<Longrightarrow> consistent M (mark_safes ss st)"
  by (auto simp: consistent_def mark_safes_eq truthful_strip_safes)

lemma length_mark_known_mines [simp]:
  "length (knowledge (mark_known_mines i st)) = length (knowledge st)"
  by (simp add: mark_known_mines_def mark_mines_eq split: option.splits)

lemma consistent_mark_at:
  assumes "consistent M st" "i < length (knowledge st)"
  shows "consistent M (mark_at i st)"
proof -
  from assms have t: "truthful M (knowledge st ! i)" by (simp add: consistent_def)
  have c1: "consistent M (mark_known_mines i st)"
    using assms(1) known_mines_truthful [OF _ t]
    by (auto simp: mark_known_mines_def consistent_mark_mines split: option.splits)
  from assms(2) have "i < length (knowledge (mark_known_mines i st))" by simp
  with c1 have t2: "truthful M (knowledge (mark_known_mines i st) ! i)"
    by (simp add: consistent_def)
  show ?thesis
    unfolding mark_at_def
    using c1 known_safes_truthful [OF _ t2]
    by (auto simp: mark_known_safes_def consistent_mark_safes split: option.splits)
qed

lemma consistent_mark_scan:
  "consistent M st \<Longrightarrow> consistent M (mark_scan i st)"
proof (induction i st rule: mark_scan.induct)
  case (1 i st)
  show ?case
  proof (cases "i < length (knowledge st)")
    case True
    with 1 show ?thesis by (subst mark_scan.simps) (simp add: consistent_mark_at)
  next
    case False
    with 1 show ?thesis by (subst mark_scan.simps) simp
  qed
qed

lemma truthful_derive:
  assumes "truthful M s1" "truthful M s2" "cells s2 |\<subseteq>| cells s1"
  shows "truthful M (derive s1 s2)"
proof -
  have "cells s1 |\<inter>| M = ((cells s1 |-| cells s2) |\<inter>| M) |\<union>| (cells s2 |\<inter>| M)"
    using assms(3) by auto
  moreover have "((cells s1 |-| cells s2) |\<inter>| M) |\<inter>| (cells s2 |\<inter>| M) = {||}" by auto
  ultimately have "fcard (cells s1 |\<inter>| M) =
      fcard ((cells s1 |-| cells s2) |\<inter>| M) + fcard (cells s2 |\<inter>| M)"
    by (metis fcard_funion_disjoint)
  with assms(1,2) show ?thesis by (simp add: truthful_def derive_def)
qed

lemma truthful_eq_cells:
  "truthful M s \<Longrightarrow> truthful M t \<Longrightarrow> cells s = cells t \<Longrightarrow> s = t"
  by (simp add: truthful_def)

lemma generate_invariant:
  assumes step: "\<And>s1 s2 ns. s1 \<in> set kn \<Longrightarrow> s2 \<in> set kn \<Longrightarrow> Q ns \<Longrightarrow> Q (generate_pair kn s1 s2 ns)"
    and init: "Q ns"
  shows "Q (generate_new_knowledge kn ns)"
proof -
  have inner: "Q (fold (\<lambda>s2 ns'. generate_pair kn s1 s2 ns') ys ns)"
    if "s1 \<in> set kn" "set ys \<subseteq> set kn" "Q ns" for s1 ys ns
    using that by (induction ys arbitrary: ns) (auto intro: step)
  have outer: "Q (fold (\<lambda>s1 ns. fold (\<lambda>s2 ns'. generate_pair kn s1 s2 ns') kn ns) xs ns)"
    if "set xs \<subseteq> set kn" "Q ns" for xs ns
    using that by (induction xs arbitrary: ns) (auto intro: inner)
  from outer [of kn ns] init show ?thesis by (simp add: generate_new_knowledge_def)
qed

lemma subsets_eq_fPow: "{X. X |\<subseteq>| S} = fset (fPow S)"
  by auto

lemma finite_subsets [simp]: "finite {X. X |\<subseteq>| S}"
  by (simp add: subsets_eq_fPow)

lemma card_subsets: "card {X. X |\<subseteq>| (S :: 'a fset)} = 2 ^ fcard S"
proof -
  have "fset ` {X. X |\<subseteq>| S} = Pow (fset S)"
  proof (intro set_eqI iffI)
    fix A assume "A \<in> Pow (fset S)"
    then have "finite A" "A \<subseteq> fset S" by (auto intro: finite_subset)
    then have "Abs_fset A |\<subseteq>| S" "fset (Abs_fset A) = A"
      by (auto simp: Abs_fset_inverse less_eq_fset.rep_eq)
    then show "A \<in> fset ` {X. X |\<subseteq>| S}" by (metis (mono_tags) imageI mem_Collect_eq)
  qed (auto simp: less_eq_fset.rep_eq)
  moreover have "inj_on fset {X. X |\<subseteq>| S}" by (simp add: fset_inject inj_on_def)
  ultimately have "card {X. X |\<subseteq>| S} = card (Pow (fset S))"
    by (metis card_image)
  then show ?thesis by (simp add: card_Pow fcard.rep_eq)
qed

lemma finite_underived [simp]: "finite (underived kn)"
proof -
  have "underived kn \<subseteq> (\<Union>s \<in> set kn. {X. X |\<subseteq>| cells s})"
    by (auto simp: underived_def)
  then show ?thesis by (rule finite_subset) simp
qed

lemma finite_work [simp]: "finite (work kn ns)"
  by (simp add: work_def)

lemma weight_pos [simp]: "0 < weight k"
  by (cases k) simp_all

lemma weight_mono: "k \<le> l \<Longrightarrow> weight k \<le> weight l"
proof (induction l)
  case 0
  then show ?case by simp
next
  case (Suc l)
  show ?case
  proof (cases "k = Suc l")
    case True
    then show ?thesis by simp
  next
    case False
    with Suc have "weight k \<le> weight l" by simp
    also have "weight l \<le> 2 ^ Suc l * weight l" by simp
    finally show ?thesis by simp
  qed
qed

lemma proper_subsets_weight:
  "(\<Sum>X \<in> {X. X \<noteq> {||} \<and> X |\<subset>| S}. weight (fcard X)) < weight (fcard S)"
proof (cases "fcard S")
  case 0
  then have "S = {||}" by simp
  then have "{X. X \<noteq> {||} \<and> X |\<subset>| S} = {}" by auto
  with 0 show ?thesis by simp
next
  case (Suc k)
  let ?A = "{X. X \<noteq> {||} \<and> X |\<subset>| S}"
  have sub: "?A \<subseteq> {X. X |\<subseteq>| S}" by auto
  have "card ?A \<le> card {X. X |\<subseteq>| S}" by (rule card_mono) (use sub in auto)
  then have c: "card ?A \<le> 2 ^ Suc k" by (simp add: card_subsets Suc)
  have b: "weight (fcard X) \<le> weight k" if "X \<in> ?A" for X
  proof -
    from that have "X |\<subset>| S" by simp
    then have "fcard X < fcard S" by (simp add: pfsubset_fcard_mono)
    with Suc show ?thesis by (intro weight_mono) simp
  qed
  have "(\<Sum>X \<in> ?A. weight (fcard X)) \<le> of_nat (card ?A) * weight k"
    by (rule sum_bounded_above) (use b in blast)
  also have "\<dots> \<le> 2 ^ Suc k * weight k" using c by simp
  also have "\<dots> < weight (Suc k)" by simp
  finally show ?thesis by (simp add: Suc)
qed

lemma underived_map_strip:
  assumes "\<And>s. cells (f s) = cells s |-| C"
  shows "underived (map f kn) \<subseteq> underived kn"
proof
  fix X assume X: "X \<in> underived (map f kn)"
  from X have ne: "X \<noteq> {||}" by (simp add: underived_def)
  from X have "\<exists>s \<in> set kn. X |\<subset>| cells (f s)" by (simp add: underived_def)
  then obtain s where s: "s \<in> set kn" "X |\<subset>| cells s |-| C" by (auto simp: assms)
  from X have "X \<notin> cells ` set (map f kn)" by (simp add: underived_def)
  then have notin: "X \<noteq> cells t |-| C" if "t \<in> set kn" for t
    using that assms by (metis image_eqI image_set)
  from s(2) have "X |\<subset>| cells s" by auto
  moreover have "X \<noteq> cells t" if "t \<in> set kn" for t
  proof
    assume "X = cells t"
    moreover from s(2) have "X |\<inter>| C = {||}" by auto
    ultimately have "X = cells t |-| C" by auto
    with notin [OF that] show False by simp
  qed
  ultimately show "X \<in> underived kn" using s(1) ne by (auto simp: underived_def)
qed

lemma underived_mark_mines:
  "underived (knowledge (mark_mines ms st)) \<subseteq> underived (knowledge st)"
  by (simp add: mark_mines_eq) (rule underived_map_strip, simp add: strip_mines_def)

lemma underived_mark_safes:
  "underived (knowledge (mark_safes ss st)) \<subseteq> underived (knowledge st)"
  by (simp add: mark_safes_eq) (rule underived_map_strip, simp add: strip_safes_def)

lemma underived_mark_at:
  "underived (knowledge (mark_at i st)) \<subseteq> underived (knowledge st)"
proof -
  have 1: "underived (knowledge (mark_known_mines i st)) \<subseteq> underived (knowledge st)"
    using underived_mark_mines by (auto simp: mark_known_mines_def split: option.splits)
  have 2: "underived (knowledge (mark_known_safes i st')) \<subseteq> underived (knowledge st')" for st'
    using underived_mark_safes by (auto simp: mark_known_safes_def split: option.splits)
  from 1 2 [of "mark_known_mines i st"] show ?thesis by (auto simp: mark_at_def)
qed

lemma underived_mark_scan:
  "underived (knowledge (mark_scan i st)) \<subseteq> underived (knowledge st)"
proof (induction i st rule: mark_scan.induct)
  case (1 i st)
  show ?case
  proof (cases "i < length (knowledge st)")
    case True
    with 1 underived_mark_at [of i st] show ?thesis
      by (subst mark_scan.simps) auto
  next
    case False
    then show ?thesis by (subst mark_scan.simps) simp
  qed
qed

lemma underived_nonempty_part:
  assumes "set k2 = {s \<in> set kn. cells s \<noteq> {||}}"
  shows "underived k2 \<subseteq> underived kn"
  using assms by (auto simp: underived_def)

lemma underived_append:
  "underived (kn @ [t]) \<subseteq> (underived kn - {cells t}) \<union> {X. X \<noteq> {||} \<and> X |\<subset>| cells t}"
  by (auto simp: underived_def)

lemma candidate_underived:
  assumes kn: "\<forall>s \<in> set kn. truthful M s"
    and s: "s1 \<in> set kn" "s2 \<in> set kn" "count s2 \<noteq> 0" "cells s2 |\<subseteq>| cells s1"
    and new: "derive s1 s2 \<notin> set kn" "cells (derive s1 s2) \<noteq> {||}"
  shows "cells (derive s1 s2) \<in> underived kn"
proof -
  from kn s have t: "truthful M s1" "truthful M s2" by auto
  then have td: "truthful M (derive s1 s2)" using s(4) by (rule truthful_derive)
  from t(2) s(3) have "cells s2 \<noteq> {||}" by (auto simp: truthful_def)
  with s(4) have "cells s1 |-| cells s2 |\<subset>| cells s1" by auto
  moreover have "cells (derive s1 s2) \<noteq> cells u" if "u \<in> set kn" for u
  proof
    assume "cells (derive s1 s2) = cells u"
    with td kn that have "derive s1 s2 = u" by (intro truthful_eq_cells [of M]) auto
    with new(1) that show False by simp
  qed
  ultimately show ?thesis using s(1) new(2)
    by (auto simp: underived_def derive_def)
qed

lemma generate_pair_work:
  assumes kn: "\<forall>s \<in> set kn. truthful M s" and s: "s1 \<in> set kn" "s2 \<in> set kn"
    and Q: "(\<forall>s \<in> set ns'. truthful M s) \<and> distinct ns' \<and>
            cells ` set ns' \<subseteq> cells ` set ns \<union> underived kn"
  shows "(\<forall>s \<in> set (generate_pair kn s1 s2 ns'). truthful M s) \<and>
         distinct (generate_pair kn s1 s2 ns') \<and>
         cells ` set (generate_pair kn s1 s2 ns') \<subseteq> cells ` set ns \<union> underived kn"
proof -
  have cand: "(\<forall>s \<in> set (add_candidate kn (derive a b) xs). truthful M s) \<and>
         distinct (add_candidate kn (derive a b) xs) \<and>
         cells ` set (add_candidate kn (derive a b) xs) \<subseteq> cells ` set ns \<union> underived kn"
    if ab: "a \<in> set kn" "b \<in> set kn" "count b \<noteq> 0" "cells b |\<subseteq>| cells a"
      and xs: "(\<forall>s \<in> set xs. truthful M s) \<and> distinct xs \<and>
            cells ` set xs \<subseteq> cells ` set ns \<union> underived kn"
    for a b xs
  proof (cases "derive a b \<notin> set xs \<and> derive a b \<notin> set kn \<and> cells (derive a b) \<noteq> {||}")
    case True
    from kn ab have "truthful M (derive a b)" by (auto intro: truthful_derive)
    moreover from True have "cells (derive a b) \<in> underived kn"
      by (intro candidate_underived [OF kn ab]) auto
    ultimately show ?thesis using True xs by (auto simp: add_candidate_def)
  next
    case False
    then have "add_candidate kn (derive a b) xs = xs" by (auto simp: add_candidate_def)
    with xs show ?thesis by simp
  qed
  show ?thesis
  proof (cases "s1 \<noteq> s2 \<and> count s1 \<noteq> 0 \<and> count s2 \<noteq> 0")
    case False
    then have "generate_pair kn s1 s2 ns' = ns'" by (auto simp: generate_pair_def)
    with Q show ?thesis by simp
  next
    case True
    define ns1 where "ns1 = (if cells s2 |\<subseteq>| cells s1
                    then add_candidate kn (derive s1 s2) ns' else ns')"
    have Q1: "(\<forall>s \<in> set ns1. truthful M s) \<and> distinct ns1 \<and>
            cells ` set ns1 \<subseteq> cells ` set ns \<union> underived kn"
      unfolding ns1_def using cand [OF s(1) s(2) _ _ Q] True Q by (cases "cells s2 |\<subseteq>| cells s1") simp_all
    have eq: "generate_pair kn s1 s2 ns' =
        (if cells s1 |\<subseteq>| cells s2 then add_candidate kn (derive s2 s1) ns1 else ns1)"
      using True by (simp add: generate_pair_def ns1_def Let_def)
    show ?thesis
      unfolding eq using cand [OF s(2) s(1) _ _ Q1] True Q1
      by (cases "cells s1 |\<subseteq>| cells s2") simp_all
  qed
qed

lemma generate_work:
  assumes kn: "\<forall>s \<in> set kn. truthful M s" and ns: "\<forall>s \<in> set ns. truthful M s" "distinct ns"
  shows "(\<forall>s \<in> set (generate_new_knowledge kn ns). truthful M s) \<and>
         distinct (generate_new_knowledge kn ns) \<and>
         cells ` set (generate_new_knowledge kn ns) \<subseteq> cells ` set ns \<union> underived kn"
proof (rule generate_invariant [where Q = "\<lambda>ns'. (\<forall>s \<in> set ns'. truthful M s) \<and> distinct ns' \<and>
            cells ` set ns' \<subseteq> cells ` set ns \<union> underived kn"])
  fix s1 s2 ns'
  assume "s1 \<in> set kn" "s2 \<in> set kn"
    and "(\<forall>s \<in> set ns'. truthful M s) \<and> distinct ns' \<and>
            cells ` set ns' \<subseteq> cells ` set ns \<union> underived kn"
  then show "(\<forall>s \<in> set (generate_pair kn s1 s2 ns'). truthful M s) \<and>
         distinct (generate_pair kn s1 s2 ns') \<and>
         cells ` set (generate_pair kn s1 s2 ns') \<subseteq> cells ` set ns \<union> underived kn"
    by (rule generate_pair_work [OF kn])
next
  from ns show "(\<forall>s \<in> set ns. truthful M s) \<and> distinct ns \<and>
            cells ` set ns \<subseteq> cells ` set ns \<union> underived kn"
    by blast
qed

lemma sum_weight_drop:
  fixes W V :: "cell fset set"
  assumes "finite W" "x \<in> W" "V \<subseteq> (W - {x}) \<union> {X. X \<noteq> {||} \<and> X |\<subset>| x}"
  shows "(\<Sum>X \<in> V. weight (fcard X)) < (\<Sum>X \<in> W. weight (fcard X))"
proof -
  let ?f = "\<lambda>X. weight (fcard X)"
  let ?P = "{X. X \<noteq> {||} \<and> X |\<subset>| x}"
  have fP: "finite ?P" by (rule finite_subset [of _ "{X. X |\<subseteq>| x}"]) auto
  have "sum ?f V \<le> sum ?f ((W - {x}) \<union> ?P)"
    by (rule sum_mono2) (use assms fP in auto)
  also have "\<dots> \<le> sum ?f (W - {x}) + sum ?f ?P"
    using sum.union_inter [of "W - {x}" ?P ?f] assms(1) fP by simp
  also have "\<dots> < sum ?f (W - {x}) + ?f x"
    using proper_subsets_weight [of x] by simp
  also have "\<dots> = sum ?f W"
    using assms(1,2) by (simp add: sum.remove [of W x ?f])
  finally show ?thesis .
qed

lemma last_not_in_butlast_cells:
  assumes "distinct ns" "ns \<noteq> []" "\<forall>s \<in> set ns. truthful M s"
  shows "cells (last ns) \<notin> cells ` set (butlast ns)"
proof
  assume "cells (last ns) \<in> cells ` set (butlast ns)"
  then obtain u where u: "u \<in> set (butlast ns)" "cells (last ns) = cells u" by auto
  from u(1) have "u \<in> set ns" by (rule in_set_butlastD)
  with assms u(2) have "last ns = u" by (intro truthful_eq_cells [of M]) auto
  moreover from assms(1,2) have "last ns \<notin> set (butlast ns)"
    by (metis append_butlast_last_id distinct_append disjoint_iff list.set_intros(1))
  ultimately show False using u(1) by simp
qed

lemma potential_discard:
  assumes "distinct ns" "ns \<noteq> []" "\<forall>s \<in> set ns. truthful M s" "last ns \<in> set kn"
  shows "potential kn (butlast ns) < potential kn ns"
  unfolding potential_def
proof (rule sum_weight_drop [where x = "cells (last ns)"])
  show "finite (work kn ns)" by simp
  from assms(2) show "cells (last ns) \<in> work kn ns" by (simp add: work_def)
  have "cells (last ns) \<notin> underived kn" using assms(4) by (auto simp: underived_def)
  moreover have "set (butlast ns) \<subseteq> set ns" by (auto dest: in_set_butlastD)
  ultimately show "work kn (butlast ns) \<subseteq>
      work kn ns - {cells (last ns)} \<union> {X. X \<noteq> {||} \<and> X |\<subset>| cells (last ns)}"
    using last_not_in_butlast_cells [OF assms(1-3)] by (auto simp: work_def)
qed

lemma inner_pass_step:
  assumes c: "consistent M st" and ns: "\<forall>s \<in> set ns. truthful M s" "distinct ns" "ns \<noteq> []"
    and new: "last ns \<notin> set (knowledge st)"
    and p: "inner_pass (st\<lparr>knowledge := knowledge st @ [last ns]\<rparr>)
              (generate_new_knowledge (knowledge st @ [last ns]) (butlast ns)) = Inr (st2, ns2)"
  shows "consistent M st2 \<and> (\<forall>s \<in> set ns2. truthful M s) \<and> distinct ns2 \<and>
         potential (knowledge st2) ns2 < potential (knowledge st) ns"
proof -
  let ?k1 = "knowledge st @ [last ns]"
  let ?st1 = "st\<lparr>knowledge := ?k1\<rparr>"
  let ?p1 = "generate_new_knowledge ?k1 (butlast ns)"
  let ?st1' = "mark_scan 0 ?st1"
  from ns have tl: "truthful M (last ns)" by simp
  have bl: "set (butlast ns) \<subseteq> set ns" by (auto dest: in_set_butlastD)
  from c tl have c1: "consistent M ?st1" by (simp add: consistent_def)
  then have k1: "\<forall>s \<in> set ?k1. truthful M s" by (simp add: consistent_def)
  from ns bl have bt: "\<forall>s \<in> set (butlast ns). truthful M s" "distinct (butlast ns)"
    by (auto simp: distinct_butlast)
  note g = generate_work [OF k1 bt]
  from c1 have c1': "consistent M ?st1'" by (rule consistent_mark_scan)
  obtain k2 n2 where e: "inner_pass ?st1 ?p1 = Inr (?st1'\<lparr>knowledge := k2\<rparr>, n2)"
    "distinct k2" "set k2 = {s \<in> set (knowledge ?st1'). cells s \<noteq> {||}}"
    "distinct n2" "set n2 = {s \<in> set ?p1. cells s \<noteq> {||}}"
    using inner_pass_ex [of ?st1 ?p1] by blast
  from e(1) p have st2: "st2 = ?st1'\<lparr>knowledge := k2\<rparr>" and ns2: "ns2 = n2" by simp_all
  from c1' e(3) have cons: "consistent M st2" by (auto simp: st2 consistent_def)
  from g e(5) have tr: "\<forall>s \<in> set ns2. truthful M s" by (auto simp: ns2)
  have "underived k2 \<subseteq> underived (knowledge ?st1')" using e(3) by (rule underived_nonempty_part)
  also have "\<dots> \<subseteq> underived ?k1" using underived_mark_scan [of 0 ?st1] by simp
  finally have u: "underived (knowledge st2) \<subseteq> underived ?k1" by (simp add: st2)
  have "cells ` set ns2 \<subseteq> cells ` set (butlast ns) \<union> underived ?k1"
    using g e(5) by (auto simp: ns2)
  with u have w: "work (knowledge st2) ns2 \<subseteq> cells ` set (butlast ns) \<union> underived ?k1"
    by (auto simp: work_def)
  have "potential (knowledge st2) ns2 < potential (knowledge st) ns"
    unfolding potential_def
  proof (rule sum_weight_drop [where x = "cells (last ns)"])
    show "finite (work (knowledge st) ns)" by simp
    from ns(3) show "cells (last ns) \<in> work (knowledge st) ns" by (simp add: work_def)
    have A: "cells ` set (butlast ns) \<subseteq> cells ` set ns" using bl by blast
    have W: "work (knowledge st) ns = cells ` set ns \<union> underived (knowledge st)"
      by (simp add: work_def)
    show "work (knowledge st2) ns2 \<subseteq>
        work (knowledge st) ns - {cells (last ns)} \<union> {X. X \<noteq> {||} \<and> X |\<subset>| cells (last ns)}"
      unfolding W
      using w underived_append [of "knowledge st" "last ns"] A
        last_not_in_butlast_cells [OF ns(2) ns(3) ns(1)]
      by blast
  qed
  with cons tr e(4) show ?thesis by (simp add: ns2)
qed

lemma outer_loop_terminates:
  assumes "consistent M st" "\<forall>s \<in> set ns. truthful M s" "distinct ns" "ns \<noteq> []"
  shows "\<exists>st'. outer_loop st ns = Some (Inr st') \<and> consistent M st'"
  using assms
proof (induction "potential (knowledge st) ns" arbitrary: st ns rule: less_induct)
  case less
  show ?case
  proof (cases "last ns \<in> set (knowledge st)")
    case True
    show ?thesis
    proof (cases "length (butlast ns) = 0")
      case b: True
      have "outer_loop st ns = Some (Inr st)"
        using True b less.prems(4) by (subst outer_loop_unfold) simp
      with less.prems(1) show ?thesis by simp
    next
      case b: False
      have "potential (knowledge st) (butlast ns) < potential (knowledge st) ns"
        using less.prems True by (intro potential_discard [of _ M]) auto
      moreover have "\<forall>s \<in> set (butlast ns). truthful M s" "distinct (butlast ns)"
        using less.prems by (auto dest: in_set_butlastD simp: distinct_butlast)
      moreover from b have "butlast ns \<noteq> []" by (metis list.size(3))
      ultimately have "\<exists>st'. outer_loop st (butlast ns) = Some (Inr st') \<and> consistent M st'"
        using less.prems(1) by (intro less.hyps)
      moreover have "outer_loop st ns = outer_loop st (butlast ns)"
        using True b less.prems(4) by (subst outer_loop_unfold) simp
      ultimately show ?thesis by simp
    qed
  next
    case False
    obtain st2 ns2 where p: "inner_pass (st\<lparr>knowledge := knowledge st @ [last ns]\<rparr>)
          (generate_new_knowledge (knowledge st @ [last ns]) (butlast ns)) = Inr (st2, ns2)"
      using inner_pass_total by blast
    note step = inner_pass_step [OF less.prems(1,2,3,4) False p]
    show ?thesis
    proof (cases "length ns2 = 0")
      case True
      have "outer_loop st ns = Some (Inr st2)"
        using False p True less.prems(4) by (subst outer_loop_unfold) simp
      with step show ?thesis by simp
    next
      case ne: False
      then have "ns2 \<noteq> []" by simp
      with step have "\<exists>st'. outer_loop st2 ns2 = Some (Inr st') \<and> consistent M st'"
        by (intro less.hyps) auto
      moreover have "outer_loop st ns = outer_loop st2 ns2"
        using False p ne less.prems(4) by (subst outer_loop_unfold) simp
      ultimately show ?thesis by simp
    qed
  qed
qed

lemma truthful_sentence_mark_safe:
  "truthful M s \<Longrightarrow> c |\<notin>| M \<Longrightarrow> truthful M (sentence_mark_safe c s)"
proof -
  assume t: "truthful M s" and c: "c |\<notin>| M"
  from c have "(cells s |-| {|c|}) |\<inter>| M = cells s |\<inter>| M" by auto
  with t show ?thesis by (simp add: truthful_def sentence_mark_safe_def)
qed

lemma consistent_mark_observed:
  "consistent M st \<Longrightarrow> cell |\<notin>| M \<Longrightarrow> consistent M (mark_observed cell st)"
  by (auto simp: consistent_def mark_observed_fields truthful_sentence_mark_safe)

lemma nearby_fold:
  "fold (nearby_step h w M cell) xs n =
     n + int (length (filter (\<lambda>ij. ij \<noteq> cell \<and> 0 \<le> fst ij \<and> fst ij < h \<and>
                                   0 \<le> snd ij \<and> snd ij < w \<and> ij |\<in>| M) xs))"
  by (induction xs arbitrary: n) (auto simp: nearby_step_def)

lemma nearby_mines_eq:
  "nearby_mines h w M cell =
     int (length (filter (\<lambda>ij. ij \<noteq> cell \<and> 0 \<le> fst ij \<and> fst ij < h \<and>
                               0 \<le> snd ij \<and> snd ij < w \<and> ij |\<in>| M) (around cell)))"
proof -
  have "concat (map (\<lambda>i. map (\<lambda>j. (i, j)) [snd cell - 1, snd cell, snd cell + 1])
                    [fst cell - 1, fst cell, fst cell + 1]) = around cell"
    by (simp add: around_def offsets_def shift_def)
  then show ?thesis by (simp add: nearby_mines_def nearby_fold)
qed

lemma length_filter_split:
  assumes "\<And>x. x \<in> set xs \<Longrightarrow> (P x \<longleftrightarrow> A x \<or> B x) \<and> \<not> (A x \<and> B x)"
  shows "length (filter P xs) = length (filter A xs) + length (filter B xs)"
  using assms by (induction xs) auto

lemma fcard_fset_of_list_distinct: "distinct xs \<Longrightarrow> fcard (fset_of_list xs) = length xs"
  by (simp add: fcard.rep_eq fset_of_list.rep_eq distinct_card)

lemma truthful_seed:
  assumes c: "consistent M st" and safe: "cell |\<in>| safes st"
    and cnt: "cnt = nearby_mines (height st) (width st) M cell"
  shows "truthful M (seed_sentence st cell cnt)"
proof -
  let ?L = "around cell"
  let ?Q1 = "\<lambda>n. inside st n \<and> n |\<notin>| safes st \<and> n |\<notin>| mines st"
  let ?Q2 = "\<lambda>n. inside st n \<and> n |\<notin>| safes st \<and> n |\<in>| mines st"
  let ?P = "\<lambda>n. n \<noteq> cell \<and> 0 \<le> fst n \<and> fst n < height st \<and>
                  0 \<le> snd n \<and> snd n < width st \<and> n |\<in>| M"
  from c have m: "mines st |\<subseteq>| M" and s: "safes st |\<inter>| M = {||}"
    by (simp_all add: consistent_def)
  have "fset_of_list (filter ?Q1 ?L) |\<inter>| M = fset_of_list (filter (\<lambda>n. ?Q1 n \<and> n |\<in>| M) ?L)"
    by (auto simp: fset_of_list_elem)
  then have "fcard (fset_of_list (filter ?Q1 ?L) |\<inter>| M) =
      fcard (fset_of_list (filter (\<lambda>n. ?Q1 n \<and> n |\<in>| M) ?L))"
    by (simp only:)
  also have "\<dots> = length (filter (\<lambda>n. ?Q1 n \<and> n |\<in>| M) ?L)"
    by (rule fcard_fset_of_list_distinct) (simp add: distinct_around)
  finally have "fcard (fset_of_list (filter ?Q1 ?L) |\<inter>| M) =
      length (filter (\<lambda>n. ?Q1 n \<and> n |\<in>| M) ?L)" .
  moreover have "length (filter ?P ?L) =
      length (filter (\<lambda>n. ?Q1 n \<and> n |\<in>| M) ?L) + length (filter ?Q2 ?L)"
  proof (rule length_filter_split)
    fix n
    from m s safe show "(?P n \<longleftrightarrow> (?Q1 n \<and> n |\<in>| M) \<or> ?Q2 n) \<and> \<not> ((?Q1 n \<and> n |\<in>| M) \<and> ?Q2 n)"
      by (auto simp: inside_def)
  qed
  ultimately show ?thesis
    by (simp add: truthful_def seed_sentence_eq cnt nearby_mines_eq)
qed

lemma consistent_disjoint: "consistent M st \<Longrightarrow> mines st |\<inter>| safes st = {||}"
  by (auto simp: consistent_def)

lemma consistent_init: "consistent M (init_ai h w)"
  by (simp add: consistent_def init_ai_def)

section \<open>The claims\<close>

subsection \<open>What add\_knowledge leaves underived\<close>

text \<open>
  C1. After \<open>add_knowledge\<close> returns, the knowledge base is closed under the direct
  deductions (a sentence with count 0 makes its cells safe, a sentence whose count is
  the number of its cells makes them mines) and under the subset rule. The code does not
  reach this: in game \<open>line_left\<close> the second call returns with the sentence
  \<open>{(0, 0)} = 1\<close> in the knowledge, whose cell \<open>known_mines\<close> gives as a mine, and
  \<open>(0, 0)\<close> is not in \<open>mines\<close>.
\<close>

theorem known_mine_left_unmarked:
  "nearby_mines 1 4 {|(0, 0)|} (0, 1) = 1 \<and> nearby_mines 1 4 {|(0, 0)|} (0, 3) = 0 \<and>
   add_knowledge (0, 1) 1 (init_ai 1 4) = Some (Inr line_left_1) \<and>
   add_knowledge (0, 3) 0 line_left_1 = Some (Inr line_left_2) \<and>
   knowledge line_left_2 = [\<lparr>cells = {|(0, 0)|}, count = 1\<rparr>] \<and>
   known_mines \<lparr>cells = {|(0, 0)|}, count = 1\<rparr> = Some {|(0, 0)|} \<and>
   (0, 0) |\<notin>| mines line_left_2"
  by code_simp

text \<open>
  C2. In the inner loop, a pass that confirms a new mine or safe cell is followed by
  \<open>generate_new_knowledge\<close> and another pass. The code tests
  \<open>num_mines > len(self.mines) or num_safes > len(self.safes)\<close> with the sizes before the
  pass on the left, and the sets never shrink: the inner loop always returns after one
  pass. In game \<open>line_left\<close> the pass of the second call adds \<open>(0, 2)\<close> to \<open>safes\<close> and the
  loop returns at once, leaving \<open>{(0, 0)} = 1\<close> unread.
\<close>

theorem inner_loop_returns_after_one_pass:
  "inner_loop st ns = Some (inner_pass st ns) \<and>
   inner_loop line_left_inner [] =
     Some (Inr (line_left_2, [])) \<and>
   fcard (safes line_left_inner) < fcard (safes line_left_2) \<and>
   knowledge line_left_2 = [\<lparr>cells = {|(0, 0)|}, count = 1\<rparr>] \<and>
   (0, 0) |\<notin>| mines line_left_2"
proof -
  have "inner_pass line_left_inner [] = Inr (line_left_2, [])" by code_simp
  moreover have "fcard (safes line_left_inner) < fcard (safes line_left_2) \<and>
      knowledge line_left_2 = [\<lparr>cells = {|(0, 0)|}, count = 1\<rparr>] \<and>
      (0, 0) |\<notin>| mines line_left_2"
    by code_simp
  ultimately show ?thesis by (simp add: inner_loop_eq)
qed

text \<open>
  C3. When the knowledge base comes to hold \<open>{a, b, c} = 2\<close> and \<open>{a, b} = 1\<close> during a
  call, the call derives \<open>{c} = 1\<close> and returns with \<open>c\<close> in \<open>mines\<close>. The code does not:
  in game \<open>tall\<close> the third call marks \<open>(2, 1)\<close> safe, which turns the second sentence
  into \<open>{(1, 0), (1, 1)} = 1\<close>; the sentence of the observation equals it and is dropped,
  so \<open>generate_new_knowledge\<close> is not run, and the call returns with both sentences,
  without \<open>{(0, 1)} = 1\<close> and without \<open>(0, 1)\<close> in \<open>mines\<close>.
\<close>

theorem subset_pair_left_underived:
  "nearby_mines 3 2 {|(0, 1), (1, 0)|} (0, 0) = 2 \<and>
   nearby_mines 3 2 {|(0, 1), (1, 0)|} (2, 0) = 1 \<and>
   nearby_mines 3 2 {|(0, 1), (1, 0)|} (2, 1) = 1 \<and>
   add_knowledge (0, 0) 2 (init_ai 3 2) = Some (Inr tall_1) \<and>
   add_knowledge (2, 0) 1 tall_1 = Some (Inr tall_2) \<and>
   add_knowledge (2, 1) 1 tall_2 = Some (Inr tall_3) \<and>
   knowledge tall_3 = [\<lparr>cells = {|(0, 1), (1, 0), (1, 1)|}, count = 2\<rparr>,
                       \<lparr>cells = {|(1, 0), (1, 1)|}, count = 1\<rparr>] \<and>
   derive \<lparr>cells = {|(0, 1), (1, 0), (1, 1)|}, count = 2\<rparr> \<lparr>cells = {|(1, 0), (1, 1)|}, count = 1\<rparr>
     = \<lparr>cells = {|(0, 1)|}, count = 1\<rparr> \<and>
   \<lparr>cells = {|(0, 1)|}, count = 1\<rparr> \<notin> set (knowledge tall_3) \<and>
   (0, 1) |\<notin>| mines tall_3"
  by code_simp

subsection \<open>Marked cells and the sentences\<close>

text \<open>
  C4, as stated: once a cell is in \<open>mines\<close> or \<open>safes\<close> no sentence of the knowledge
  contains it, in particular when \<open>add_knowledge\<close> returns. In game \<open>square\<close> the third
  call returns with \<open>(2, 2)\<close> in \<open>safes\<close> and in a sentence of the knowledge: the sentence
  waited in \<open>new_sentences\<close>, which the marks do not reach, while \<open>(2, 2)\<close> was marked.
\<close>

theorem marked_cell_in_sentence_at_return:
  "nearby_mines 3 3 {|(0, 0), (0, 1)|} (0, 2) = 1 \<and>
   nearby_mines 3 3 {|(0, 0), (0, 1)|} (1, 0) = 2 \<and>
   nearby_mines 3 3 {|(0, 0), (0, 1)|} (1, 1) = 2 \<and>
   add_knowledge (0, 2) 1 (init_ai 3 3) = Some (Inr square_1) \<and>
   add_knowledge (1, 0) 2 square_1 = Some (Inr square_2) \<and>
   add_knowledge (1, 1) 2 square_2 = Some (Inr square_3) \<and>
   \<lparr>cells = {|(0, 0), (2, 0), (2, 1), (2, 2)|}, count = 1\<rparr> \<in> set (knowledge square_3) \<and>
   (2, 2) |\<in>| safes square_3"
  by code_simp

text \<open>
  C4, amended: right after \<open>MinesweeperAI.mark_mine(c)\<close> the cell is in \<open>mines\<close> and in no
  sentence of the knowledge, right after \<open>MinesweeperAI.mark_safe(c)\<close> it is in \<open>safes\<close>
  and in no sentence of the knowledge, and the sentence that \<open>add_knowledge\<close> builds from
  an observation has no cell of \<open>mines\<close> or \<open>safes\<close>. Nothing is said of the sentences
  that come from \<open>new_sentences\<close> later.
\<close>

theorem mark_removes_cell_from_knowledge:
  "c |\<in>| mines (ai_mark_mine c st) \<and>
   (\<forall>s \<in> set (knowledge (ai_mark_mine c st)). c |\<notin>| cells s) \<and>
   c |\<in>| safes (ai_mark_safe c st) \<and>
   (\<forall>s \<in> set (knowledge (ai_mark_safe c st)). c |\<notin>| cells s) \<and>
   cells (seed_sentence st cell cnt) |\<inter>| (mines st |\<union>| safes st) = {||}"
proof -
  have "cells (seed_sentence st cell cnt) |\<inter>| (mines st |\<union>| safes st) = {||}"
    by (auto simp: seed_sentence_eq fset_of_list_elem)
  with ai_mark_mine_removes [of c st] ai_mark_safe_removes [of c st] show ?thesis by blast
qed

theorem mark_removes_cell_from_knowledge_witness:
  "knowledge (ai_mark_mine (1, 1) square_2)
     = [\<lparr>cells = {|(0, 1), (1, 2)|}, count = 0\<rparr>,
        \<lparr>cells = {|(0, 0), (0, 1), (2, 0), (2, 1)|}, count = 1\<rparr>] \<and>
   (1, 1) |\<in>| mines (ai_mark_mine (1, 1) square_2) \<and>
   (1, 1) |\<notin>| cells (knowledge (ai_mark_mine (1, 1) square_2) ! 0) \<and>
   (1, 1) |\<notin>| cells (knowledge (ai_mark_mine (1, 1) square_2) ! 1) \<and>
   (1, 1) |\<in>| safes (ai_mark_safe (1, 1) square_2) \<and>
   (1, 1) |\<notin>| cells (knowledge (ai_mark_safe (1, 1) square_2) ! 0) \<and>
   (1, 1) |\<notin>| cells (knowledge (ai_mark_safe (1, 1) square_2) ! 1)"
proof -
  have k: "knowledge (ai_mark_mine (1, 1) square_2)
     = [\<lparr>cells = {|(0, 1), (1, 2)|}, count = 0\<rparr>,
        \<lparr>cells = {|(0, 0), (0, 1), (2, 0), (2, 1)|}, count = 1\<rparr>]"
    by code_simp
  have l: "length (knowledge (ai_mark_mine (1, 1) square_2)) = 2"
    "length (knowledge (ai_mark_safe (1, 1) square_2)) = 2"
    by code_simp+
  from l have m: "knowledge (ai_mark_mine (1, 1) square_2) ! 0 \<in> set (knowledge (ai_mark_mine (1, 1) square_2))"
    "knowledge (ai_mark_mine (1, 1) square_2) ! 1 \<in> set (knowledge (ai_mark_mine (1, 1) square_2))"
    "knowledge (ai_mark_safe (1, 1) square_2) ! 0 \<in> set (knowledge (ai_mark_safe (1, 1) square_2))"
    "knowledge (ai_mark_safe (1, 1) square_2) ! 1 \<in> set (knowledge (ai_mark_safe (1, 1) square_2))"
    by simp_all
  from mark_removes_cell_from_knowledge [of "(1, 1)" square_2] k m show ?thesis by blast
qed

subsection \<open>Termination\<close>

text \<open>
  C5. For a call \<open>add_knowledge(cell, count)\<close> whose count is the one the board gives for
  the cell (\<open>nearby_mines\<close>, so between 0 and the number of neighbours), on a state that
  is consistent with that board, as every state reached by such observations is (the
  new state is consistent again, and \<open>consistent_init\<close> starts the chain), the call
  returns: the outer loop empties \<open>new_sentences\<close>, and no exception is raised.
\<close>

theorem add_knowledge_terminates:
  assumes "consistent board st" and "cell |\<notin>| board"
    and "cnt = nearby_mines (height st) (width st) board cell"
  shows "\<exists>st'. add_knowledge cell cnt st = Some (Inr st') \<and> consistent board st'"
proof -
  let ?st2 = "mark_observed cell st"
  from assms(1,2) have c2: "consistent board ?st2" by (rule consistent_mark_observed)
  have "truthful board (seed_sentence ?st2 cell cnt)"
    by (rule truthful_seed [OF c2]) (simp_all add: mark_observed_fields assms(3))
  then have "\<exists>st'. outer_loop ?st2 [seed_sentence ?st2 cell cnt] = Some (Inr st') \<and>
      consistent board st'"
    by (intro outer_loop_terminates [OF c2]) simp_all
  then show ?thesis by (simp add: add_knowledge_def Let_def)
qed

theorem add_knowledge_terminates_witness:
  "consistent {|(0, 0), (0, 1)|} square_2 \<and> ((1, 1) :: cell) |\<notin>| {|(0, 0), (0, 1)|} \<and>
   2 = nearby_mines (height square_2) (width square_2) {|(0, 0), (0, 1)|} (1, 1) \<and>
   add_knowledge (1, 1) 2 square_2 = Some (Inr square_3) \<and>
   consistent {|(0, 0), (0, 1)|} square_3"
proof -
  have h: "consistent {|(0, 0), (0, 1)|} square_2" "((1, 1) :: cell) |\<notin>| {|(0, 0), (0, 1)|}"
    "2 = nearby_mines (height square_2) (width square_2) {|(0, 0), (0, 1)|} (1, 1)"
    by code_simp+
  have e: "add_knowledge (1, 1) 2 square_2 = Some (Inr square_3)" by code_simp
  from add_knowledge_terminates [OF h] e h show ?thesis by auto
qed

subsection \<open>The sentence of an observation\<close>

text \<open>
  C6. The sentence that \<open>add_knowledge(cell, count)\<close> starts from has as its cells
  exactly the cells of the board at Chebyshev distance 1 from \<open>cell\<close> that are, at that
  point, neither in \<open>safes\<close> nor in \<open>mines\<close>, and as its count the observed count minus
  the number of cells of the board at distance 1 that are in \<open>mines\<close>. The state at that
  point is \<open>mark_observed cell st\<close>. The count is that of the claim for the fact sets of
  the specification's knowledge base, which keeps \<open>safes\<close> and \<open>mines\<close> disjoint, as
  every state consistent with a board does (\<open>consistent_disjoint\<close>): the code passes
  over a cell of \<open>safes\<close> before it asks whether the cell is in \<open>mines\<close>.
\<close>

theorem seed_sentence_neighbours:
  "add_knowledge cell cnt st =
      outer_loop (mark_observed cell st) [seed_sentence (mark_observed cell st) cell cnt] \<and>
   fset (cells (seed_sentence (mark_observed cell st) cell cnt)) =
      {n. inside st n \<and> chebyshev n cell = 1 \<and>
          n |\<notin>| safes (mark_observed cell st) \<and> n |\<notin>| mines (mark_observed cell st)} \<and>
   (mines st |\<inter>| safes st = {||} \<longrightarrow>
    count (seed_sentence (mark_observed cell st) cell cnt) =
      cnt - int (card {n. inside st n \<and> chebyshev n cell = 1 \<and>
                          n |\<in>| mines (mark_observed cell st)}))"
  using seed_cells [of cell st cnt] seed_count [of st cell cnt]
  by (simp add: add_knowledge_def Let_def)

theorem seed_sentence_neighbours_witness:
  "mines (ai_mark_mine (0, 1) square_1) |\<inter>| safes (ai_mark_mine (0, 1) square_1) = {||} \<and>
   cells (seed_sentence (mark_observed (1, 1) (ai_mark_mine (0, 1) square_1)) (1, 1) 2)
     = {|(0, 0), (1, 0), (1, 2), (2, 0), (2, 1), (2, 2)|} \<and>
   count (seed_sentence (mark_observed (1, 1) (ai_mark_mine (0, 1) square_1)) (1, 1) 2) = 1 \<and>
   card {n. inside (ai_mark_mine (0, 1) square_1) n \<and> chebyshev n (1, 1) = 1 \<and>
            n |\<in>| mines (mark_observed (1, 1) (ai_mark_mine (0, 1) square_1))} = 1"
proof -
  have h: "mines (ai_mark_mine (0, 1) square_1) |\<inter>| safes (ai_mark_mine (0, 1) square_1) = {||}"
    by code_simp
  have e: "cells (seed_sentence (mark_observed (1, 1) (ai_mark_mine (0, 1) square_1)) (1, 1) 2)
     = {|(0, 0), (1, 0), (1, 2), (2, 0), (2, 1), (2, 2)|}"
    "count (seed_sentence (mark_observed (1, 1) (ai_mark_mine (0, 1) square_1)) (1, 1) 2) = 1"
    by code_simp+
  from seed_sentence_neighbours [of "(1, 1)" 2 "ai_mark_mine (0, 1) square_1"] e h
  show ?thesis by simp
qed


subsection \<open>Sentence operations\<close>

text \<open>
  C7. For every sentence, \<open>known_safes\<close> returns the sentence's cells exactly when its
  count is 0 and returns nothing otherwise; \<open>known_mines\<close> returns the sentence's cells
  exactly when the count equals the number of cells (the empty set when both are 0) and
  returns nothing otherwise.
\<close>

theorem known_sets_characterised:
  "known_safes s = (if count s = 0 then Some (cells s) else None) \<and>
   known_mines s = (if count s = int (fcard (cells s)) then Some (cells s) else None) \<and>
   known_mines \<lparr>cells = {||}, count = 0\<rparr> = Some {||}"
  by (auto simp: known_safes_def known_mines_def)

text \<open>
  C8. When the cell is in the sentence, \<open>Sentence.mark_mine\<close> removes it and lowers the
  count by exactly 1, and \<open>Sentence.mark_safe\<close> removes it and keeps the count; when the
  cell is not in the sentence, both leave the sentence as it is.
\<close>

theorem sentence_mark_effect:
  "(c |\<in>| cells s \<longrightarrow>
      cells (sentence_mark_mine c s) = cells s |-| {|c|} \<and>
      c |\<notin>| cells (sentence_mark_mine c s) \<and>
      count (sentence_mark_mine c s) = count s - 1 \<and>
      cells (sentence_mark_safe c s) = cells s |-| {|c|} \<and>
      c |\<notin>| cells (sentence_mark_safe c s) \<and>
      count (sentence_mark_safe c s) = count s) \<and>
   (c |\<notin>| cells s \<longrightarrow> sentence_mark_mine c s = s \<and> sentence_mark_safe c s = s)"
  by (simp add: sentence_mark_mine_def sentence_mark_safe_def)

theorem sentence_mark_effect_witness:
  "(0, 1) |\<in>| cells \<lparr>cells = {|(0, 1), (1, 1)|}, count = 1\<rparr> \<and>
   sentence_mark_mine (0, 1) \<lparr>cells = {|(0, 1), (1, 1)|}, count = 1\<rparr>
     = \<lparr>cells = {|(1, 1)|}, count = 0\<rparr> \<and>
   sentence_mark_safe (0, 1) \<lparr>cells = {|(0, 1), (1, 1)|}, count = 1\<rparr>
     = \<lparr>cells = {|(1, 1)|}, count = 1\<rparr> \<and>
   (2, 2) |\<notin>| cells \<lparr>cells = {|(0, 1), (1, 1)|}, count = 1\<rparr> \<and>
   sentence_mark_mine (2, 2) \<lparr>cells = {|(0, 1), (1, 1)|}, count = 1\<rparr>
     = \<lparr>cells = {|(0, 1), (1, 1)|}, count = 1\<rparr> \<and>
   sentence_mark_safe (2, 2) \<lparr>cells = {|(0, 1), (1, 1)|}, count = 1\<rparr>
     = \<lparr>cells = {|(0, 1), (1, 1)|}, count = 1\<rparr>"
  using sentence_mark_effect [of "(0, 1)" "\<lparr>cells = {|(0, 1), (1, 1)|}, count = 1\<rparr>"]
    sentence_mark_effect [of "(2, 2)" "\<lparr>cells = {|(0, 1), (1, 1)|}, count = 1\<rparr>"]
  by auto

subsection \<open>Marking a cell again\<close>











subsection \<open>Empty and duplicate sentences\<close>

text \<open>
  C10, as stated: whenever \<open>add_knowledge\<close> returns, the knowledge holds no sentence with
  an empty set of cells and no two equal sentences. In game \<open>line_mid\<close> the third call
  marks \<open>(0, 0)\<close> safe, which empties the sentence \<open>{(0, 0)} = 0\<close>; the sentence of the
  observation is \<open>{} = 0\<close> too, so it is dropped as known, no pass runs, and the call
  returns with the empty sentence in the knowledge.
\<close>

theorem empty_sentence_at_return:
  "nearby_mines 1 4 {|(0, 2)|} (0, 1) = 1 \<and> nearby_mines 1 4 {|(0, 2)|} (0, 3) = 1 \<and>
   nearby_mines 1 4 {|(0, 2)|} (0, 0) = 0 \<and>
   add_knowledge (0, 1) 1 (init_ai 1 4) = Some (Inr line_left_1) \<and>
   add_knowledge (0, 3) 1 line_left_1 = Some (Inr line_mid_2) \<and>
   add_knowledge (0, 0) 0 line_mid_2 = Some (Inr line_mid_3) \<and>
   \<lparr>cells = {||}, count = 0\<rparr> \<in> set (knowledge line_mid_3) \<and>
   \<not> pruned (knowledge line_mid_3)"
  by code_simp

text \<open>
  C10, amended: when \<open>add_knowledge\<close> returns, the knowledge is free of empty and of
  duplicate sentences exactly when it was so right after the observed cell was marked
  safe, or the sentence of the observation was not in the knowledge then (so that the
  pruning pass ran at least once).
\<close>

theorem add_knowledge_pruned_iff:
  assumes "add_knowledge cell cnt st = Some (Inr st')"
  shows "pruned (knowledge st') \<longleftrightarrow>
     pruned (knowledge (mark_observed cell st)) \<or>
     seed_sentence (mark_observed cell st) cell cnt \<notin> set (knowledge (mark_observed cell st))"
proof -
  let ?st2 = "mark_observed cell st"
  let ?seed = "seed_sentence ?st2 cell cnt"
  from assms have run: "outer_loop ?st2 [?seed] = Some (Inr st')"
    by (simp add: add_knowledge_def Let_def)
  show ?thesis
  proof (cases "?seed \<in> set (knowledge ?st2)")
    case True
    with run have "st' = ?st2" by (subst (asm) outer_loop_unfold) simp
    with True show ?thesis by simp
  next
    case False
    obtain st3 ns3 where p: "inner_pass (?st2\<lparr>knowledge := knowledge ?st2 @ [?seed]\<rparr>)
        (generate_new_knowledge (knowledge ?st2 @ [?seed]) []) = Inr (st3, ns3)"
      using inner_pass_total by blast
    from p have pr: "pruned (knowledge st3)" by (rule inner_pass_pruned)
    have "pruned (knowledge st')"
    proof (cases "ns3 = []")
      case True
      with run False p have "st' = st3" by (subst (asm) outer_loop_unfold) simp
      with pr show ?thesis by simp
    next
      case ne: False
      with run False p have "outer_loop st3 ns3 = Some (Inr st')"
        by (subst (asm) outer_loop_unfold) simp
      from outer_loop_pruned [OF this pr] show ?thesis .
    qed
    with False show ?thesis by simp
  qed
qed

theorem add_knowledge_pruned_iff_witness:
  "add_knowledge (1, 1) 2 square_2 = Some (Inr square_3) \<and>
   seed_sentence (mark_observed (1, 1) square_2) (1, 1) 2
     \<notin> set (knowledge (mark_observed (1, 1) square_2)) \<and>
   pruned (knowledge square_3)"
proof -
  have h: "add_knowledge (1, 1) 2 square_2 = Some (Inr square_3)" by code_simp
  have n: "seed_sentence (mark_observed (1, 1) square_2) (1, 1) 2
     \<notin> set (knowledge (mark_observed (1, 1) square_2))"
    by code_simp
  from add_knowledge_pruned_iff [OF h] n h show ?thesis by blast
qed

end
